theory Spec2Isabelle
  imports Complex_Main "HOL-Library.Word"
begin

unbundle bit_operations_syntax

section \<open>C++ integer arithmetic\<close>

text \<open>
  The C++ operators \<^verbatim>\<open>/\<close> and \<^verbatim>\<open>%\<close> on signed integers truncate towards zero; a
  conversion to \<^verbatim>\<open>int32_t\<close> keeps the low 32 bits (two's complement). Division by zero
  is undefined behaviour and is an explicit branch wherever the model divides.
\<close>

definition trunc_div :: "int \<Rightarrow> int \<Rightarrow> int" where
  "trunc_div a b = sgn a * sgn b * (\<bar>a\<bar> div \<bar>b\<bar>)"

definition trunc_mod :: "int \<Rightarrow> int \<Rightarrow> int" where
  "trunc_mod a b = a - b * trunc_div a b"

definition to_int32 :: "int \<Rightarrow> int" where
  "to_int32 x = (x + 2147483648) mod 4294967296 - 2147483648"

section \<open>C++ double arithmetic\<close>

text \<open>
  A \<^verbatim>\<open>double\<close> is an IEEE 754 binary64 value: a finite one, an infinity or a NaN.
  The finite values are the rationals \<open>m * 2^q\<close> with \<open>\<bar>m\<bar> < 2^53\<close> and
  \<open>-1074 \<le> q \<le> 971\<close>. The sign of a zero is not kept: products, quotients by the
  conversion of an integer and comparisons, the operations used below, give the same
  result for both zeros.
\<close>

datatype double = Finite rat | PosInf | NegInf | NaN

definition pow2 :: "int \<Rightarrow> rat" where
  "pow2 k = (if 0 \<le> k then 2 ^ nat k else 1 / 2 ^ nat (- k))"

text \<open>The number of binary digits of a positive integer.\<close>

function bit_length :: "int \<Rightarrow> int" where
  "bit_length n = (if n \<le> 0 then 0 else 1 + bit_length (n div 2))"
  by pat_completeness auto

termination
  by (relation "measure nat") auto

declare bit_length.simps [simp del]

text \<open>The exponent \<open>e\<close> of a non-zero rational: \<open>2^e \<le> \<bar>x\<bar> < 2^(e+1)\<close>.\<close>

definition binade :: "rat \<Rightarrow> int" where
  "binade x =
     (let k = (if 1 \<le> \<bar>x\<bar> then bit_length \<lfloor>\<bar>x\<bar>\<rfloor> - 1
               else 1 - bit_length \<lfloor>1 / \<bar>x\<bar>\<rfloor>)
      in if pow2 k \<le> \<bar>x\<bar> then k else k - 1)"

text \<open>The nearest integer, a tie going to the even one.\<close>

definition round_half_even :: "rat \<Rightarrow> int" where
  "round_half_even x =
     (let f = \<lfloor>x\<rfloor>; r = x - of_int f
      in if r < 1 / 2 then f
         else if 1 / 2 < r then f + 1
         else if even f then f else f + 1)"

text \<open>
  The rounding of the default mode (to nearest, ties to even) that every operation
  applies to its exact result: 53 significant bits, the spacing of the subnormal
  range below \<open>2^-1022\<close>, and an infinity from \<open>2^1024\<close> on.
\<close>

definition round_double :: "rat \<Rightarrow> double" where
  "round_double x =
     (if x = 0 then Finite 0
      else
        (let q = max (binade x - 52) (- 1074);
             y = of_int (round_half_even (\<bar>x\<bar> / pow2 q)) * pow2 q
         in if pow2 1024 \<le> y then (if 0 < x then PosInf else NegInf)
            else Finite (sgn x * y)))"

text \<open>The conversion of an integer; it is exact up to \<open>2^53\<close>.\<close>

definition double_of_int :: "int \<Rightarrow> double" where
  "double_of_int i = round_double (of_int i)"

definition double_negative :: "double \<Rightarrow> bool" where
  "double_negative a = (case a of Finite x \<Rightarrow> x < 0 | NegInf \<Rightarrow> True | _ \<Rightarrow> False)"

fun double_times :: "double \<Rightarrow> double \<Rightarrow> double" where
  "double_times (Finite x) (Finite y) = round_double (x * y)"
| "double_times NaN b = NaN"
| "double_times a NaN = NaN"
| "double_times a b =
     (if a = Finite 0 \<or> b = Finite 0 then NaN
      else if double_negative a = double_negative b then PosInf else NegInf)"

text \<open>
  The quotient. A zero divisor is the positive zero: the divisors below are conversions
  of integers, which are never the negative zero.
\<close>

fun double_divide :: "double \<Rightarrow> double \<Rightarrow> double" where
  "double_divide (Finite x) (Finite y) =
     (if y = 0 then (if x = 0 then NaN else if 0 < x then PosInf else NegInf)
      else round_double (x / y))"
| "double_divide NaN b = NaN"
| "double_divide a NaN = NaN"
| "double_divide (Finite x) b = Finite 0"
| "double_divide a (Finite y) = (if double_negative a = (y < 0) then PosInf else NegInf)"
| "double_divide a b = NaN"

text \<open>The comparison \<^verbatim>\<open><\<close>; it is false as soon as one side is a NaN.\<close>

fun double_less :: "double \<Rightarrow> double \<Rightarrow> bool" where
  "double_less (Finite x) (Finite y) = (x < y)"
| "double_less NaN b = False"
| "double_less a NaN = False"
| "double_less NegInf b = (b \<noteq> NegInf)"
| "double_less a PosInf = (a \<noteq> PosInf)"
| "double_less a b = False"

section \<open>FrameBuckets (SessionMetrics.h)\<close>

record FrameBuckets =
  totalNumOfFrames :: "64 word"
  numOfFrames17to25ms :: "64 word"
  numOfFrames25to34ms :: "64 word"
  numOfFrames34to67ms :: "64 word"
  numOfFrames67to100ms :: "64 word"
  numOfFramesOver100ms :: "64 word"

definition FrameBuckets_init :: FrameBuckets where
  "FrameBuckets_init =
     \<lparr>totalNumOfFrames = 0, numOfFrames17to25ms = 0, numOfFrames25to34ms = 0,
      numOfFrames34to67ms = 0, numOfFrames67to100ms = 0, numOfFramesOver100ms = 0\<rparr>"

definition addUpNewFrames :: "FrameBuckets \<Rightarrow> FrameBuckets \<Rightarrow> FrameBuckets" where
  "addUpNewFrames a newFrames =
     a\<lparr>totalNumOfFrames := totalNumOfFrames a + totalNumOfFrames newFrames,
       numOfFrames17to25ms := numOfFrames17to25ms a + numOfFrames17to25ms newFrames,
       numOfFrames25to34ms := numOfFrames25to34ms a + numOfFrames25to34ms newFrames,
       numOfFrames34to67ms := numOfFrames34to67ms a + numOfFrames34to67ms newFrames,
       numOfFrames67to100ms := numOfFrames67to100ms a + numOfFrames67to100ms newFrames,
       numOfFramesOver100ms := numOfFramesOver100ms a + numOfFramesOver100ms newFrames\<rparr>"

section \<open>SessionRecords (SessionRecords.h, SessionRecords.cpp)\<close>

record CycleRecord =
  startIntervalUs :: int
  totalDurationUs :: int
  isMissedCycle :: bool
  isFPSJitter :: bool

definition CycleRecord_init :: CycleRecord where
  "CycleRecord_init =
     \<lparr>startIntervalUs = 0, totalDurationUs = 0, isMissedCycle = False, isFPSJitter = False\<rparr>"

text \<open>The two fields of the AIDL \<^verbatim>\<open>WorkDuration\<close> parcelable that the aggregator reads.\<close>

record WorkDuration =
  timeStampNanos :: int
  durationNanos :: int

text \<open>
  The integer members are mathematical integers here; the narrowing conversions of the
  source (\<^verbatim>\<open>int64_t\<close> to \<^verbatim>\<open>int32_t\<close>) are written out with \<^const>\<open>to_int32\<close>, and
  so is the \<^verbatim>\<open>int32_t\<close> arithmetic on \<^verbatim>\<open>mLatestStartIntervalSumUs\<close>, which wraps
  when the rolling sum leaves the 32-bit range. The factor \<^verbatim>\<open>kJankCheckTimeFactor\<close> is
  a \<^verbatim>\<open>double\<close>, and the two comparisons that the source makes in \<^verbatim>\<open>double\<close> are made
  with the rounded operations above.
\<close>

record SessionRecords =
  kMaxNumOfRecords :: int
  kJankCheckTimeFactor :: double
  mRecords :: "CycleRecord list"
  mRecordsIndQueue :: "int list"
  mAvgDurationUs :: int
  mLastStartTimeNs :: int
  mLatestRecordIndex :: int
  mNumOfMissedCycles :: int
  mNumOfFrames :: int
  mSumOfDurationsUs :: int
  mLatestStartIntervalSumUs :: int
  mNumOfFrameFPSJitters :: int
  mAddedFramesForFPSCheck :: int

definition kTotalFramesForFPSCheck :: int where
  "kTotalFramesForFPSCheck = 3"

text \<open>
  The constructor resizes the ring to \<^verbatim>\<open>maxNumOfRecords\<close> default records. A negative
  size converts to a huge \<^verbatim>\<open>size_t\<close> and \<^verbatim>\<open>resize\<close> throws: the result is \<open>None\<close>.
\<close>

definition SessionRecords_new :: "int \<Rightarrow> double \<Rightarrow> SessionRecords option" where
  "SessionRecords_new maxNumOfRecords jankCheckTimeFactor =
     (if maxNumOfRecords < 0 then None
      else Some
        \<lparr>kMaxNumOfRecords = maxNumOfRecords,
         kJankCheckTimeFactor = jankCheckTimeFactor,
         mRecords = replicate (nat maxNumOfRecords) CycleRecord_init,
         mRecordsIndQueue = [],
         mAvgDurationUs = 0,
         mLastStartTimeNs = 0,
         mLatestRecordIndex = -1,
         mNumOfMissedCycles = 0,
         mNumOfFrames = 0,
         mSumOfDurationsUs = 0,
         mLatestStartIntervalSumUs = 0,
         mNumOfFrameFPSJitters = 0,
         mAddedFramesForFPSCheck = 0\<rparr>)"

text \<open>
  \<^verbatim>\<open>mRecords[i]\<close>: an index outside the vector is undefined behaviour in C++ and
  \<open>None\<close> here.
\<close>

definition record_at :: "CycleRecord list \<Rightarrow> int \<Rightarrow> CycleRecord option" where
  "record_at recs i =
     (if 0 \<le> i \<and> i < int (length recs) then Some (recs ! nat i) else None)"

definition record_put :: "CycleRecord list \<Rightarrow> int \<Rightarrow> CycleRecord \<Rightarrow> CycleRecord list option" where
  "record_put recs i r =
     (if 0 \<le> i \<and> i < int (length recs) then Some (recs[nat i := r]) else None)"

definition updateFrameBuckets :: "int \<Rightarrow> bool \<Rightarrow> FrameBuckets \<Rightarrow> FrameBuckets" where
  "updateFrameBuckets frameDurationUs isJankFrame framesInBuckets =
     (let b = framesInBuckets\<lparr>totalNumOfFrames := totalNumOfFrames framesInBuckets + 1\<rparr> in
      if \<not> isJankFrame \<or> frameDurationUs < 17000 then b
      else if frameDurationUs < 25000 then b\<lparr>numOfFrames17to25ms := numOfFrames17to25ms b + 1\<rparr>
      else if frameDurationUs < 34000 then b\<lparr>numOfFrames25to34ms := numOfFrames25to34ms b + 1\<rparr>
      else if frameDurationUs < 67000 then b\<lparr>numOfFrames34to67ms := numOfFrames34to67ms b + 1\<rparr>
      else if frameDurationUs < 100000 then b\<lparr>numOfFrames67to100ms := numOfFrames67to100ms b + 1\<rparr>
      else if frameDurationUs \<ge> 100000 then b\<lparr>numOfFramesOver100ms := numOfFramesOver100ms b + 1\<rparr>
      else b)"

text \<open>
  First block of the loop body: when the ring is full the oldest record is removed from
  the running aggregates, and from the front of the index queue if it is there.
  \<^verbatim>\<open>front()\<close> of an empty deque and \<^verbatim>\<open>% 0\<close> are undefined behaviour.
\<close>

definition evictOldest :: "SessionRecords \<Rightarrow> SessionRecords option" where
  "evictOldest s =
     (if mNumOfFrames s \<ge> kMaxNumOfRecords s then
        (if kMaxNumOfRecords s = 0 then None
         else
           (let indexOfRecordToRemove = trunc_mod (mLatestRecordIndex s + 1) (kMaxNumOfRecords s) in
            case record_at (mRecords s) indexOfRecordToRemove of
              None \<Rightarrow> None
            | Some r \<Rightarrow>
               (case mRecordsIndQueue s of
                  [] \<Rightarrow> None
                | q # qs \<Rightarrow>
                    Some (s\<lparr>mSumOfDurationsUs := mSumOfDurationsUs s - totalDurationUs r,
                            mNumOfMissedCycles :=
                              (if isMissedCycle r then mNumOfMissedCycles s - 1
                               else mNumOfMissedCycles s),
                            mNumOfFrameFPSJitters :=
                              (if isFPSJitter r then mNumOfFrameFPSJitters s - 1
                               else mNumOfFrameFPSJitters s),
                            mNumOfFrames := mNumOfFrames s - 1,
                            mRecordsIndQueue :=
                              (if q = indexOfRecordToRemove then qs else q # qs)\<rparr>))))
      else Some s)"

text \<open>
  The jitter block, entered after \<^verbatim>\<open>mLatestRecordIndex\<close> has advanced. It returns the
  jitter flag of the new frame and the updated state. The threshold
  \<^verbatim>\<open>1.4 * mLatestStartIntervalSumUs / kTotalFramesForFPSCheck\<close> is computed in
  \<^verbatim>\<open>double\<close>, from left to right: the literal is the \<^verbatim>\<open>double\<close> nearest to \<open>1.4\<close>, the
  product is rounded and so is the quotient.
\<close>

definition trackFPSJitter :: "SessionRecords \<Rightarrow> int \<Rightarrow> bool \<Rightarrow> (bool \<times> SessionRecords) option" where
  "trackFPSJitter s startInterval computeFPSJitters =
     (if computeFPSJitters then
        (if mAddedFramesForFPSCheck s < kTotalFramesForFPSCheck then
           (if startInterval > 0 then
              Some (False, s\<lparr>mLatestStartIntervalSumUs :=
                                to_int32 (mLatestStartIntervalSumUs s + startInterval),
                              mAddedFramesForFPSCheck := mAddedFramesForFPSCheck s + 1\<rparr>)
            else Some (False, s))
         else
           let FPSJitter =
                 double_less
                   (double_divide
                      (double_times (round_double (14 / 10))
                         (double_of_int (mLatestStartIntervalSumUs s)))
                      (double_of_int kTotalFramesForFPSCheck))
                   (double_of_int startInterval);
               s1 = (if FPSJitter
                     then s\<lparr>mNumOfFrameFPSJitters := mNumOfFrameFPSJitters s + 1\<rparr> else s);
               oldRecordIndex0 = mLatestRecordIndex s1 - kTotalFramesForFPSCheck;
               oldRecordIndex =
                 (if oldRecordIndex0 < 0 then oldRecordIndex0 + kMaxNumOfRecords s1
                  else oldRecordIndex0)
           in case record_at (mRecords s1) oldRecordIndex of
                None \<Rightarrow> None
              | Some old \<Rightarrow>
                  Some (FPSJitter,
                        s1\<lparr>mLatestStartIntervalSumUs :=
                              to_int32 (mLatestStartIntervalSumUs s1
                                          + (startInterval - startIntervalUs old))\<rparr>))
      else Some (False, s\<lparr>mLatestStartIntervalSumUs := 0, mAddedFramesForFPSCheck := 0\<rparr>))"

text \<open>
  The \<^verbatim>\<open>while\<close> loop on the index queue, on the reversed queue (back first): indexes
  whose record is not longer than the new duration are popped.
\<close>

fun popNotGreater :: "CycleRecord list \<Rightarrow> int \<Rightarrow> int list \<Rightarrow> int list option" where
  "popNotGreater recs d [] = Some []"
| "popNotGreater recs d (i # rest) =
     (case record_at recs i of
        None \<Rightarrow> None
      | Some r \<Rightarrow>
          if totalDurationUs r \<le> d then popNotGreater recs d rest else Some (i # rest))"

text \<open>
  The tail of the loop body: the new record is stored, the counters, the buckets and the
  index queue are updated and the average is recomputed. The missed-cycle test converts
  the \<^verbatim>\<open>int64_t\<close> target in microseconds to \<^verbatim>\<open>double\<close>, multiplies it by the factor
  and compares the rounded product with the duration.
\<close>

definition storeRecord ::
  "int \<Rightarrow> SessionRecords \<Rightarrow> FrameBuckets \<Rightarrow> int \<Rightarrow> int \<Rightarrow> bool
     \<Rightarrow> (SessionRecords \<times> FrameBuckets) option" where
  "storeRecord targetDurationNs s newFramesInBuckets startInterval totalDuration FPSJitter =
     (let cycleMissed =
            double_less
              (double_times (double_of_int (trunc_div targetDurationNs 1000))
                 (kJankCheckTimeFactor s))
              (double_of_int totalDuration)
      in case record_put (mRecords s) (mLatestRecordIndex s)
                \<lparr>startIntervalUs = startInterval, totalDurationUs = totalDuration,
                 isMissedCycle = cycleMissed, isFPSJitter = FPSJitter\<rparr> of
           None \<Rightarrow> None
         | Some recs \<Rightarrow>
             (let s5 = s\<lparr>mRecords := recs,
                          mNumOfFrames := mNumOfFrames s + 1,
                          mNumOfMissedCycles :=
                            (if cycleMissed then mNumOfMissedCycles s + 1
                             else mNumOfMissedCycles s)\<rparr>;
                  buckets = updateFrameBuckets totalDuration cycleMissed newFramesInBuckets
              in (case popNotGreater recs totalDuration (rev (mRecordsIndQueue s5)) of
                    None \<Rightarrow> None
                  | Some kept \<Rightarrow>
                      (let s6 = s5\<lparr>mRecordsIndQueue := rev kept @ [mLatestRecordIndex s5],
                                   mSumOfDurationsUs := mSumOfDurationsUs s5 + totalDuration\<rparr>
                       in if mNumOfFrames s6 = 0 then None
                          else Some (s6\<lparr>mAvgDurationUs :=
                                            to_int32 (trunc_div (mSumOfDurationsUs s6)
                                                        (mNumOfFrames s6))\<rparr>,
                                     buckets)))))"

text \<open>One iteration of the \<^verbatim>\<open>for\<close> loop of \<^verbatim>\<open>addReportedDurations\<close>.\<close>

definition addReportedDuration ::
  "int \<Rightarrow> bool \<Rightarrow> SessionRecords \<times> FrameBuckets \<Rightarrow> WorkDuration
     \<Rightarrow> (SessionRecords \<times> FrameBuckets) option" where
  "addReportedDuration targetDurationNs computeFPSJitters sb duration =
     (let totalDuration = to_int32 (trunc_div (durationNanos duration) 1000)
      in case evictOldest (fst sb) of
           None \<Rightarrow> None
         | Some s1 \<Rightarrow>
             (if kMaxNumOfRecords s1 = 0 then None
              else
                (let s2 = s1\<lparr>mLatestRecordIndex :=
                               trunc_mod (mLatestRecordIndex s1 + 1) (kMaxNumOfRecords s1)\<rparr>;
                     startTimeNs = timeStampNanos duration - durationNanos duration;
                     startInterval =
                       (if mNumOfFrames s2 > 0
                        then to_int32 (trunc_div (startTimeNs - mLastStartTimeNs s2) 1000) else 0);
                     s3 = s2\<lparr>mLastStartTimeNs := startTimeNs\<rparr>
                 in (case trackFPSJitter s3 startInterval computeFPSJitters of
                       None \<Rightarrow> None
                     | Some js \<Rightarrow>
                         storeRecord targetDurationNs (snd js) (snd sb) startInterval
                           totalDuration (fst js)))))"

fun addReportedDurations ::
  "SessionRecords \<times> FrameBuckets \<Rightarrow> WorkDuration list \<Rightarrow> int \<Rightarrow> bool
     \<Rightarrow> (SessionRecords \<times> FrameBuckets) option" where
  "addReportedDurations sb [] targetDurationNs computeFPSJitters = Some sb"
| "addReportedDurations sb (duration # rest) targetDurationNs computeFPSJitters =
     (case addReportedDuration targetDurationNs computeFPSJitters sb duration of
        None \<Rightarrow> None
      | Some sb' \<Rightarrow> addReportedDurations sb' rest targetDurationNs computeFPSJitters)"

definition getMaxDuration :: "SessionRecords \<Rightarrow> int option option" where
  "getMaxDuration s =
     (case mRecordsIndQueue s of
        [] \<Rightarrow> Some None
      | q # qs \<Rightarrow> (case record_at (mRecords s) q of
                     None \<Rightarrow> None
                   | Some r \<Rightarrow> Some (Some (totalDurationUs r))))"

definition getAvgDuration :: "SessionRecords \<Rightarrow> int option" where
  "getAvgDuration s = (if mNumOfFrames s \<le> 0 then None else Some (mAvgDurationUs s))"

definition getNumOfRecords :: "SessionRecords \<Rightarrow> int" where
  "getNumOfRecords s = mNumOfFrames s"

definition getNumOfMissedCycles :: "SessionRecords \<Rightarrow> int" where
  "getNumOfMissedCycles s = mNumOfMissedCycles s"

definition getNumOfFPSJitters :: "SessionRecords \<Rightarrow> int" where
  "getNumOfFPSJitters s = mNumOfFrameFPSJitters s"

text \<open>
  \<^verbatim>\<open>isLowFrameRate\<close> compares each interval with the \<^verbatim>\<open>double\<close> quotient
  \<^verbatim>\<open>1000000.0 / fpsLowRateThreshold\<close>. For a threshold of zero the quotient is
  \<open>+\<infinity>\<close>, which no \<^verbatim>\<open>int32_t\<close> reaches. For any other \<^verbatim>\<open>int32_t\<close> threshold the
  quotient is either an integer (exact as a \<^verbatim>\<open>double\<close>) or at least \<open>1 / \<bar>fps\<bar>\<close> away
  from every integer, more than its rounding error, so the comparison with an integer
  has the same result as the exact one below.
\<close>

definition reachesCycleThreshold :: "int \<Rightarrow> int \<Rightarrow> bool" where
  "reachesCycleThreshold intervalUs fpsLowRateThreshold =
     (if fpsLowRateThreshold = 0 then False
      else rat_of_int intervalUs \<ge> 1000000 / rat_of_int fpsLowRateThreshold)"

text \<open>The conjunction of the source short-circuits: a record is read only when needed.\<close>

definition isLowFrameRate :: "SessionRecords \<Rightarrow> int \<Rightarrow> bool option" where
  "isLowFrameRate s fpsLowRateThreshold =
     (if mNumOfFrames s \<ge> 3 then
        (let ind1 = mLatestRecordIndex s;
             ind2 = (if ind1 = 0 then kMaxNumOfRecords s - 1 else ind1 - 1);
             ind3 = (if ind2 = 0 then kMaxNumOfRecords s - 1 else ind2 - 1)
         in (case record_at (mRecords s) ind1 of
               None \<Rightarrow> None
             | Some r1 \<Rightarrow>
                 (if \<not> reachesCycleThreshold (startIntervalUs r1) fpsLowRateThreshold
                  then Some False
                  else (case record_at (mRecords s) ind2 of
                          None \<Rightarrow> None
                        | Some r2 \<Rightarrow>
                            (if \<not> reachesCycleThreshold (startIntervalUs r2) fpsLowRateThreshold
                             then Some False
                             else (case record_at (mRecords s) ind3 of
                                     None \<Rightarrow> None
                                   | Some r3 \<Rightarrow>
                                       Some (reachesCycleThreshold (startIntervalUs r3)
                                               fpsLowRateThreshold)))))))
      else Some False)"

definition resetRecords :: "SessionRecords \<Rightarrow> SessionRecords" where
  "resetRecords s =
     s\<lparr>mAvgDurationUs := 0, mLastStartTimeNs := 0, mLatestRecordIndex := -1,
       mNumOfMissedCycles := 0, mNumOfFrames := 0, mSumOfDurationsUs := 0,
       mRecordsIndQueue := []\<rparr>"

datatype fault = DivideByZero

text \<open>
  \<^verbatim>\<open>getLatestFPS\<close> divides two \<^verbatim>\<open>int32_t\<close> values with no check of the divisor; the
  division by zero, undefined in C++, is the \<open>Inl\<close> result.
\<close>

definition getLatestFPS :: "SessionRecords \<Rightarrow> fault + int" where
  "getLatestFPS s =
     (if mLatestStartIntervalSumUs s = 0 then Inl DivideByZero
      else Inr (trunc_div (1000000 * kTotalFramesForFPSCheck) (mLatestStartIntervalSumUs s)))"

subsection \<open>The fixtures of SessionRecordsTest\<close>

definition MS_TO_NS :: "int \<Rightarrow> int" where
  "MS_TO_NS x = x * 1000 * 1000"

definition MS_TO_US :: "int \<Rightarrow> int" where
  "MS_TO_US x = x * 1000"

definition fakeWorkDurations :: "int list \<Rightarrow> WorkDuration list" where
  "fakeWorkDurations fakedTotalDurationsMs =
     map (\<lambda>d. \<lparr>timeStampNanos = 0, durationNanos = MS_TO_NS d\<rparr>) fakedTotalDurationsMs"

definition fakeReportedDurations :: "(int \<times> int) list \<Rightarrow> WorkDuration list" where
  "fakeReportedDurations fakedReportedDurationsMs =
     map (\<lambda>r. \<lparr>timeStampNanos = MS_TO_NS (fst r), durationNanos = MS_TO_NS (snd r)\<rparr>)
       fakedReportedDurationsMs"

text \<open>The four queries the test reads after each batch.\<close>

definition sessionQueries ::
  "SessionRecords \<times> FrameBuckets \<Rightarrow> int \<times> int option option \<times> int option \<times> int" where
  "sessionQueries sb =
     (getNumOfRecords (fst sb), getMaxDuration (fst sb), getAvgDuration (fst sb),
      getNumOfMissedCycles (fst sb))"

text \<open>Feeding a batch to a session that may already have failed.\<close>

definition thenReport ::
  "(SessionRecords \<times> FrameBuckets) option \<Rightarrow> WorkDuration list \<Rightarrow> int \<Rightarrow> bool
     \<Rightarrow> (SessionRecords \<times> FrameBuckets) option" where
  "thenReport r ds targetDurationNs computeFPSJitters =
     (case r of None \<Rightarrow> None
      | Some sb \<Rightarrow> addReportedDurations sb ds targetDurationNs computeFPSJitters)"

definition newSession :: "int \<Rightarrow> double \<Rightarrow> (SessionRecords \<times> FrameBuckets) option" where
  "newSession maxNumOfRecords jankCheckTimeFactor =
     map_option (\<lambda>s. (s, FrameBuckets_init)) (SessionRecords_new maxNumOfRecords jankCheckTimeFactor)"

text \<open>
  The test \<^verbatim>\<open>checkFPSJitters\<close> starts with a batch that tracks jitters; the test
  \<^verbatim>\<open>checkLowFrameRate\<close> reaches a low frame rate after three batches.
\<close>

definition jitterSession :: "(SessionRecords \<times> FrameBuckets) option" where
  "jitterSession =
     thenReport (newSession 5 (Finite (3 / 2)))
       (fakeReportedDurations [(0, 8), (10, 9), (20, 8), (30, 8)]) (MS_TO_NS 10) True"

definition lowRateSession :: "(SessionRecords \<times> FrameBuckets) option" where
  "lowRateSession =
     thenReport
       (thenReport
          (thenReport (newSession 5 (Finite (3 / 2)))
             (fakeReportedDurations [(0, 8), (10, 9), (20, 8), (30, 8)]) (MS_TO_NS 10) False)
          (fakeReportedDurations [(130, 8), (230, 9)]) (MS_TO_NS 10) False)
       (fakeReportedDurations [(330, 8), (430, 9)]) (MS_TO_NS 10) False"

subsection \<open>The ring invariant\<close>

text \<open>
  What every state built by the constructor, \<^verbatim>\<open>addReportedDurations\<close> and
  \<^verbatim>\<open>resetRecords\<close> satisfies: the ring has \<^verbatim>\<open>kMaxNumOfRecords\<close> slots, the latest index
  is \<open>-1\<close> (nothing stored yet) or a slot, and it is a slot once a frame is counted.
\<close>

definition ringOk :: "SessionRecords \<Rightarrow> bool" where
  "ringOk s =
     (0 \<le> kMaxNumOfRecords s \<and> length (mRecords s) = nat (kMaxNumOfRecords s)
      \<and> - 1 \<le> mLatestRecordIndex s
      \<and> (mLatestRecordIndex s < kMaxNumOfRecords s \<or> mLatestRecordIndex s = - 1)
      \<and> 0 \<le> mNumOfFrames s
      \<and> (mNumOfFrames s = 0 \<or> 0 \<le> mLatestRecordIndex s))"

text \<open>The start interval of the record \<open>k\<close> positions before the latest one, wrapping.\<close>

definition intervalBefore :: "SessionRecords \<Rightarrow> int \<Rightarrow> int" where
  "intervalBefore s k =
     startIntervalUs (mRecords s ! nat ((mLatestRecordIndex s - k) mod kMaxNumOfRecords s))"

section \<open>FrameBuckets::toString (SessionMetrics.h)\<close>

fun decimal :: "nat \<Rightarrow> string" where
  "decimal n =
     (if n < 10 then [char_of (48 + n)] else decimal (n div 10) @ [char_of (48 + n mod 10)])"

text \<open>\<^verbatim>\<open>operator<<\<close> on an \<^verbatim>\<open>int64_t\<close>.\<close>

definition showInt64 :: "64 word \<Rightarrow> string" where
  "showInt64 x =
     (if sint x < 0 then ''-'' @ decimal (nat (- sint x)) else decimal (nat (sint x)))"

text \<open>
  A bucket's share is computed as \<^verbatim>\<open>frames * 10000 / total / 100.0\<close>: an \<^verbatim>\<open>int64_t\<close>
  product and truncating quotient, then a \<^verbatim>\<open>double\<close> division that the stream prints.
  The integer part is \<open>hundredths\<close> below; the printing of \<open>q / 100.0\<close> by the stream is
  the parameter \<open>fmt\<close> of the rendering functions. \<^verbatim>\<open>toString\<close> calls it only with a
  positive total.
\<close>

definition hundredths :: "64 word \<Rightarrow> 64 word \<Rightarrow> int" where
  "hundredths frames totalFrames = trunc_div (sint (frames * 10000)) (sint totalFrames)"

text \<open>
  For \<open>0 \<le> q < 1000000\<close> the value \<open>q / 100\<close> has at most six significant decimal
  digits, and the stream (default precision 6, trailing zeros dropped) prints exactly
  them. \<open>showHundredths\<close> is that rendering; it is used for the examples below and
  says nothing about other quotients.
\<close>

definition showHundredths :: "int \<Rightarrow> string" where
  "showHundredths q =
     (let n = nat q; whole = n div 100; part = n mod 100
      in decimal whole @
         (if part = 0 then []
          else if part mod 10 = 0 then ''.'' @ decimal (part div 10)
          else ''.'' @ decimal (part div 10) @ decimal (part mod 10)))"

definition appendSingleBucketStr ::
  "(int \<Rightarrow> string) \<Rightarrow> 64 word \<Rightarrow> 64 word \<Rightarrow> string \<Rightarrow> string" where
  "appendSingleBucketStr fmt singleBucketFrames totalFrames ss =
     ss @ ''-'' @ fmt (hundredths singleBucketFrames totalFrames) @ ''%'' @
       (if 0 < sint singleBucketFrames then ''('' @ showInt64 singleBucketFrames @ '')'' else [])"

definition toString :: "(int \<Rightarrow> string) \<Rightarrow> FrameBuckets \<Rightarrow> string" where
  "toString fmt b =
     (let ss = ''JankFramesInBuckets: '' in
      if sint (totalNumOfFrames b) \<le> 0 then ss @ ''0%-0%-0%-0%-0%-0''
      else
        (let ss1 = ss @ fmt (hundredths (numOfFrames17to25ms b) (totalNumOfFrames b)) @ ''%'' @
                     (if 0 < sint (numOfFrames17to25ms b)
                      then ''('' @ showInt64 (numOfFrames17to25ms b) @ '')'' else []);
             ss2 = appendSingleBucketStr fmt (numOfFrames25to34ms b) (totalNumOfFrames b) ss1;
             ss3 = appendSingleBucketStr fmt (numOfFrames34to67ms b) (totalNumOfFrames b) ss2;
             ss4 = appendSingleBucketStr fmt (numOfFrames67to100ms b) (totalNumOfFrames b) ss3;
             ss5 = appendSingleBucketStr fmt (numOfFramesOver100ms b) (totalNumOfFrames b) ss4
         in ss5 @ ''-'' @ showInt64 (totalNumOfFrames b)))"

text \<open>The six counters in declaration order.\<close>

definition counters :: "FrameBuckets \<Rightarrow> 64 word list" where
  "counters b =
     [totalNumOfFrames b, numOfFrames17to25ms b, numOfFrames25to34ms b, numOfFrames34to67ms b,
      numOfFrames67to100ms b, numOfFramesOver100ms b]"

section \<open>BatteryFGReporter (BatteryFGReporter.h, BatteryFGReporter.cpp)\<close>

text \<open>
  \<^verbatim>\<open>struct BatteryFGPipeline\<close>: three \<^verbatim>\<open>int32_t\<close> header fields and sixteen register
  address and data pairs, \<open>regs\<close> in declaration order. The atom handed to the stats
  service carries these fields, so a reported atom is the record as it stands when
  \<^verbatim>\<open>reportVendorAtom\<close> is called.
\<close>

record BatteryFGPipeline =
  event :: "32 word"
  state :: "32 word"
  duration :: "32 word"
  regs :: "32 word list"

definition kNumMaxEvents :: "32 word" where
  "kNumMaxEvents = 8"

text \<open>
  The members \<^verbatim>\<open>ab_trigger_time_\<close> and \<^verbatim>\<open>last_ab_check_\<close> of the reporter (a name
  cannot end with an underscore here). The array of \<^verbatim>\<open>kNumMaxEvents\<close> trigger times is
  a function of the index; the model reads and writes it below \<^const>\<open>kNumMaxEvents\<close>
  only.
\<close>

record BatteryFGReporter =
  ab_trigger_time :: "nat \<Rightarrow> 32 word"
  last_ab_check :: "32 word"

text \<open>
  \<open>now\<close> is what \<^verbatim>\<open>getTimeSecs()\<close> returns in this call (each path calls it once).
  The comparison of the \<^verbatim>\<open>int32_t\<close> event with the \<^verbatim>\<open>unsigned int\<close> constant is
  unsigned, which is the order of words. The result is the reporter, the record (passed
  by reference) and the atoms reported.
\<close>

definition reportFGEvent ::
  "BatteryFGReporter \<Rightarrow> 64 word \<Rightarrow> BatteryFGPipeline
     \<Rightarrow> BatteryFGReporter \<times> BatteryFGPipeline \<times> BatteryFGPipeline list" where
  "reportFGEvent r now data =
     (if kNumMaxEvents \<le> event data then (r, data, [])
      else
        (let e = unat (event data);
             r1 = (if state data = 1 \<and> ab_trigger_time r e = 0
                   then r\<lparr>ab_trigger_time := (ab_trigger_time r)(e := ucast now)\<rparr>
                   else r\<lparr>ab_trigger_time := (ab_trigger_time r)(e := 0)\<rparr>);
             d1 = (if state data = 1 \<and> ab_trigger_time r e = 0 then data
                   else data\<lparr>duration := ucast (now - ucast (ab_trigger_time r e))\<rparr>);
             d2 = d1\<lparr>state := state d1 + 1\<rparr>
         in (r1, d2, [d2])))"

section \<open>SysfsCollector::collect (SysfsCollector.cpp)\<close>

definition kSecondsPerWake :: int where
  "kSecondsPerWake = 5 * 60"

definition kWakesPer5Min :: int where
  "kWakesPer5Min = trunc_div (5 * 60) kSecondsPerWake"

definition kWakesPerHour :: int where
  "kWakesPerHour = trunc_div (60 * 60) kSecondsPerWake"

definition kWakesPerDay :: int where
  "kWakesPerDay = trunc_div (24 * 60 * 60) kSecondsPerWake"

text \<open>The three \<^verbatim>\<open>int\<close> counters of the timer loop and the periodic work it starts.\<close>

record wake_counters =
  wake_5min :: int
  wake_hours :: int
  wake_days :: int

datatype periodic = aggregatePer5Min | logPerHour | logPerDay

text \<open>
  \<^verbatim>\<open>wake += expire.count\<close> adds a \<^verbatim>\<open>uint64_t\<close> to an \<^verbatim>\<open>int\<close>: the sum is formed
  modulo \<open>2^64\<close> and converted back to \<^verbatim>\<open>int\<close>, which keeps its low 32 bits.
\<close>

definition add_expirations :: "int \<Rightarrow> nat \<Rightarrow> int" where
  "add_expirations wake count = to_int32 (wake + int count)"

text \<open>One pass of the \<^verbatim>\<open>while (1)\<close> body after a successful read of \<open>count\<close> expirations.\<close>

definition wake_pass :: "wake_counters \<Rightarrow> nat \<Rightarrow> wake_counters \<times> periodic list" where
  "wake_pass w count =
     (let m = add_expirations (wake_5min w) count;
          h = add_expirations (wake_hours w) count;
          d = add_expirations (wake_days w) count
      in (\<lparr>wake_5min = (if m \<ge> kWakesPer5Min then trunc_mod m kWakesPer5Min else m),
           wake_hours = (if h \<ge> kWakesPerHour then trunc_mod h kWakesPerHour else h),
           wake_days = (if d \<ge> kWakesPerDay then trunc_mod d kWakesPerDay else d)\<rparr>,
          (if m \<ge> kWakesPer5Min then [aggregatePer5Min] else []) @
          (if h \<ge> kWakesPerHour then [logPerHour] else []) @
          (if d \<ge> kWakesPerDay then [logPerDay] else [])))"

text \<open>
  The loop runs until a read of the timer fails. \<open>counts\<close> are the expiration counts of
  the successful reads in order; the result is the counters and the work started when
  the loop ends.
\<close>

fun wake_loop :: "wake_counters \<Rightarrow> nat list \<Rightarrow> wake_counters \<times> periodic list" where
  "wake_loop w [] = (w, [])"
| "wake_loop w (count # counts) =
     (let p = wake_pass w count; q = wake_loop (fst p) counts in (fst q, snd p @ snd q))"

definition wake_start :: wake_counters where
  "wake_start = \<lparr>wake_5min = 0, wake_hours = 0, wake_days = 0\<rparr>"

text \<open>The counters between two passes: each below its period and not negative.\<close>

definition counters_reduced :: "wake_counters \<Rightarrow> bool" where
  "counters_reduced w =
     (0 \<le> wake_5min w \<and> wake_5min w < kWakesPer5Min
      \<and> 0 \<le> wake_hours w \<and> wake_hours w < kWakesPerHour
      \<and> 0 \<le> wake_days w \<and> wake_days w < kWakesPerDay)"

section \<open>BatteryEEPROMReporter::checkAndReport (BatteryEEPROMReporter.cpp)\<close>

definition LINESIZE :: nat where
  "LINESIZE = 31"

definition kSecondsPerMonth :: int where
  "kSecondsPerMonth = 60 * 60 * 24 * 30"

text \<open>
  What a call reads from outside the reporter. \<open>history_file\<close> and \<open>cycle_count_file\<close>
  are the results of \<^verbatim>\<open>ReadFileToString\<close> on the history path and of reading and parsing
  the cycle count (\<open>None\<close> when that fails). \<open>sscanf_history\<close> is the C library's
  \<^verbatim>\<open>sscanf\<close> with the format \<^verbatim>\<open>"%4hx%4hx%x %x %x %x"\<close>: the values it converted, in
  order and at most six, or \<open>None\<close> when the input ends before the first conversion
  (return value \<open>-1\<close>). \<open>stack_tempco\<close>, \<open>stack_rcomp0\<close> and \<open>stack_data\<close> are the
  indeterminate contents of the uninitialised locals \<^verbatim>\<open>hist_raw\<close> (declared before the
  loop) and \<^verbatim>\<open>data[4]\<close> (declared in the loop body, so indeterminate in every pass).
  \<open>getTimeSecs_after i\<close> is the clock read after slot \<open>i\<close> is reported.
\<close>

record eeprom_environment =
  history_file :: "string option"
  cycle_count_file :: "int option"
  sscanf_history :: "string \<Rightarrow> nat list option"
  stack_tempco :: "16 word"
  stack_rcomp0 :: "16 word"
  stack_data :: "nat \<Rightarrow> nat \<Rightarrow> 32 word"
  getTimeSecs_after :: "nat \<Rightarrow> int"

text \<open>
  The record handed to \<^verbatim>\<open>reportEvent\<close>, which always calls \<^verbatim>\<open>reportVendorAtom\<close>. Its
  fields are the cycle count, the two model parameters and the fields unpacked from the
  packed 64-bit value, kept packed here; \<open>slot\<close> is the loop index that produced it.
\<close>

record eeprom_atom =
  slot :: nat
  cycle_cnt :: int
  tempco :: "16 word"
  rcomp0 :: "16 word"
  packed :: "64 word"

text \<open>
  The variables a pass of the loop hands to the next: the two scanned members of
  \<^verbatim>\<open>hist_raw\<close>, the member \<^verbatim>\<open>report_time_\<close> of the reporter and the atoms reported so
  far.
\<close>

record eeprom_loop =
  raw_tempco :: "16 word"
  raw_rcomp0 :: "16 word"
  report_time :: int
  reported :: "eeprom_atom list"

definition history_each :: "string \<Rightarrow> nat \<Rightarrow> string" where
  "history_each contents i = take LINESIZE (drop (i * LINESIZE) contents)"

text \<open>\<^verbatim>\<open>sscanf\<close> stores each converted value and leaves the other variables alone.\<close>

definition scanned_tempco :: "nat list \<Rightarrow> 16 word \<Rightarrow> 16 word" where
  "scanned_tempco vals old = (if 0 < length vals then of_nat (vals ! 0) else old)"

definition scanned_rcomp0 :: "nat list \<Rightarrow> 16 word \<Rightarrow> 16 word" where
  "scanned_rcomp0 vals old = (if 1 < length vals then of_nat (vals ! 1) else old)"

definition scanned_data :: "nat list \<Rightarrow> (nat \<Rightarrow> 32 word) \<Rightarrow> nat \<Rightarrow> 32 word" where
  "scanned_data vals old k = (if k + 2 < length vals then of_nat (vals ! (k + 2)) else old k)"

definition pack_data :: "(nat \<Rightarrow> 32 word) \<Rightarrow> 64 word" where
  "pack_data data =
     push_bit 48 (ucast (data 3)) OR push_bit 32 (ucast (data 2))
       OR push_bit 16 (ucast (data 1)) OR ucast (data 0)"

definition history_cycle_cnt :: "int \<Rightarrow> nat \<Rightarrow> int" where
  "history_cycle_cnt sparse_index_count i =
     (if int i < sparse_index_count then (int i + 1) * 20
      else (int i + sparse_index_count + 1) * 10)"

text \<open>
  The part of the loop body after the scan, the same in both versions of the function:
  the sentinel test, the test of the packed value (\<^verbatim>\<open>tmp <= 0\<close> on a \<^verbatim>\<open>uint64_t\<close>), then
  the report and the update of \<^verbatim>\<open>report_time_\<close>.
\<close>

definition report_scanned ::
  "eeprom_environment \<Rightarrow> int \<Rightarrow> nat \<Rightarrow> nat list \<Rightarrow> eeprom_loop \<Rightarrow> eeprom_loop" where
  "report_scanned env sparse_index_count i vals st =
     (let st1 = st\<lparr>raw_tempco := scanned_tempco vals (raw_tempco st),
                   raw_rcomp0 := scanned_rcomp0 vals (raw_rcomp0 st)\<rparr>;
          tmp = pack_data (scanned_data vals (stack_data env i))
      in if raw_tempco st1 = 0xFFFF \<and> raw_rcomp0 st1 = 0xFFFF then st1
         else if tmp \<le> 0 then st1
         else st1\<lparr>reported := reported st1 @
                       [\<lparr>slot = i, cycle_cnt = history_cycle_cnt sparse_index_count i,
                         tempco = raw_tempco st1, rcomp0 = raw_rcomp0 st1, packed = tmp\<rparr>],
                   report_time := getTimeSecs_after env i\<rparr>)"

text \<open>The throttle test at the head of \<^verbatim>\<open>checkAndReport\<close>.\<close>

definition throttled :: "int \<Rightarrow> int \<Rightarrow> bool" where
  "throttled now report_time0 = (report_time0 \<noteq> 0 \<and> now - report_time0 < kSecondsPerMonth)"

subsection \<open>The version with BATT_HIST_NUM_MAX slots\<close>

definition history_pass ::
  "eeprom_environment \<Rightarrow> int \<Rightarrow> string \<Rightarrow> nat \<Rightarrow> eeprom_loop \<Rightarrow> eeprom_loop" where
  "history_pass env sparse_index_count contents i st =
     report_scanned env sparse_index_count i
       (case sscanf_history env (history_each contents i) of None \<Rightarrow> [] | Some vals \<Rightarrow> vals) st"

text \<open>The \<^verbatim>\<open>for\<close> loop over the slots, left at the first offset beyond the file.\<close>

fun history_loop ::
  "eeprom_environment \<Rightarrow> int \<Rightarrow> string \<Rightarrow> nat list \<Rightarrow> eeprom_loop \<Rightarrow> eeprom_loop" where
  "history_loop env sparse_index_count contents [] st = st"
| "history_loop env sparse_index_count contents (i # rest) st =
     (if i * LINESIZE > length contents then st
      else history_loop env sparse_index_count contents rest
             (history_pass env sparse_index_count contents i st))"

definition sparse_index_count_of :: "int \<Rightarrow> int option \<Rightarrow> int" where
  "sparse_index_count_of batt_hist_num_max cycle_count =
     (case cycle_count of
        None \<Rightarrow> 0
      | Some c \<Rightarrow>
          (let cnt = trunc_div c 10
           in if cnt > batt_hist_num_max then trunc_mod cnt batt_hist_num_max else 0))"

text \<open>
  \<open>batt_hist_num_max\<close> is the macro \<^verbatim>\<open>BATT_HIST_NUM_MAX\<close> of the header and \<open>now\<close> the
  clock at entry. The result is the new \<^verbatim>\<open>report_time_\<close> and the atoms reported by this
  call.
\<close>

definition checkAndReport ::
  "eeprom_environment \<Rightarrow> nat \<Rightarrow> int \<Rightarrow> int \<Rightarrow> int \<times> eeprom_atom list" where
  "checkAndReport env batt_hist_num_max now report_time0 =
     (if throttled now report_time0 then (report_time0, [])
      else
        (case history_file env of
           None \<Rightarrow> (report_time0, [])
         | Some contents \<Rightarrow>
             (let st = history_loop env
                         (sparse_index_count_of (int batt_hist_num_max) (cycle_count_file env))
                         contents [0 ..< batt_hist_num_max]
                         \<lparr>raw_tempco = stack_tempco env, raw_rcomp0 = stack_rcomp0 env,
                          report_time = report_time0, reported = []\<rparr>
              in (report_time st, reported st))))"

subsection \<open>The pipeline version\<close>

text \<open>
  The later version derives the number of slots from the file length, skips a slot on
  which \<^verbatim>\<open>sscanf\<close> converts nothing (\<^verbatim>\<open>num <= 0\<close>) and keeps \<^verbatim>\<open>sparse_index_count\<close> at 0.
\<close>

definition pipeline_pass ::
  "eeprom_environment \<Rightarrow> string \<Rightarrow> nat \<Rightarrow> eeprom_loop \<Rightarrow> eeprom_loop" where
  "pipeline_pass env contents i st =
     (case sscanf_history env (history_each contents i) of
        None \<Rightarrow> st
      | Some vals \<Rightarrow> if int (length vals) \<le> 0 then st else report_scanned env 0 i vals st)"

fun pipeline_loop ::
  "eeprom_environment \<Rightarrow> string \<Rightarrow> nat list \<Rightarrow> eeprom_loop \<Rightarrow> eeprom_loop" where
  "pipeline_loop env contents [] st = st"
| "pipeline_loop env contents (i # rest) st =
     (if i * LINESIZE + LINESIZE > length contents then st
      else pipeline_loop env contents rest (pipeline_pass env contents i st))"

definition checkAndReport_pipeline ::
  "eeprom_environment \<Rightarrow> int \<Rightarrow> int \<Rightarrow> int \<times> eeprom_atom list" where
  "checkAndReport_pipeline env now report_time0 =
     (if throttled now report_time0 then (report_time0, [])
      else
        (case history_file env of
           None \<Rightarrow> (report_time0, [])
         | Some contents \<Rightarrow>
             (let kHistTotalNum = length contents div LINESIZE;
                  st = pipeline_loop env contents [0 ..< kHistTotalNum]
                         \<lparr>raw_tempco = stack_tempco env, raw_rcomp0 = stack_rcomp0 env,
                          report_time = report_time0, reported = []\<rparr>
              in (report_time st, reported st))))"

text \<open>
  A history record whose first two fields decode to the sentinel: \<^verbatim>\<open>sscanf\<close> converts at
  least the two 16-bit fields of the slot's text and both are \<open>0xFFFF\<close>.
\<close>

definition decodes_to_sentinel :: "eeprom_environment \<Rightarrow> string \<Rightarrow> nat \<Rightarrow> bool" where
  "decodes_to_sentinel env contents i =
     (case sscanf_history env (history_each contents i) of
        None \<Rightarrow> False
      | Some vals \<Rightarrow>
          1 < length vals \<and> (of_nat (vals ! 0) :: 16 word) = 0xFFFF
            \<and> (of_nat (vals ! 1) :: 16 word) = 0xFFFF)"

text \<open>
  What a stretch of the loop over the slots \<open>S\<close> does to the reported atoms and to
  \<^verbatim>\<open>report_time_\<close>: atoms are only added, each for a slot of \<open>S\<close> that does not decode
  to the sentinel, and without a new atom the time stays.
\<close>

definition loop_effect ::
  "eeprom_environment \<Rightarrow> string \<Rightarrow> nat set \<Rightarrow> eeprom_loop \<Rightarrow> eeprom_loop \<Rightarrow> bool" where
  "loop_effect env contents S st st' =
     (\<exists>new. reported st' = reported st @ new
        \<and> (\<forall>a \<in> set new. slot a \<in> S \<and> \<not> decodes_to_sentinel env contents (slot a)
              \<and> \<not> (tempco a = 0xFFFF \<and> rcomp0 a = 0xFFFF))
        \<and> (new = [] \<longrightarrow> report_time st' = report_time st))"

text \<open>
  An example: a history file of two slots, the first holding the sentinel pair; the
  scanner is fixed on these two texts only.
\<close>

definition example_history :: string where
  "example_history = ''FFFFFFFF 00000001 00000000 0000'' @ ''12345678 00000001 00000000 0000''"

definition example_environment :: eeprom_environment where
  "example_environment =
     \<lparr>history_file = Some example_history,
      cycle_count_file = Some 30,
      sscanf_history =
        (\<lambda>text. if take 8 text = ''FFFFFFFF'' then Some [65535, 65535, 1, 0, 0]
                 else Some [4660, 22136, 1, 0, 0]),
      stack_tempco = 0, stack_rcomp0 = 0, stack_data = (\<lambda>i k. 0),
      getTimeSecs_after = (\<lambda>i. 5000 + int i)\<rparr>"

text \<open>The same file with the sentinel pair in both slots.\<close>

definition blank_environment :: eeprom_environment where
  "blank_environment =
     example_environment
       \<lparr>history_file := Some (''FFFFFFFF 00000001 00000000 0000'' @ ''FFFFFFFF 00000001 00000000 0000'')\<rparr>"

section \<open>ChannelGroup and ChannelManager (ChannelGroup.cpp, ChannelManager.cpp)\<close>

definition kMaxChannels :: nat where
  "kMaxChannels = 16"

text \<open>
  The unions \<^verbatim>\<open>ChannelMapKey\<close> and \<^verbatim>\<open>ChannelMapValue\<close> read a pair of \<^verbatim>\<open>int32_t\<close> as one
  \<^verbatim>\<open>int64_t\<close>, which is one-to-one; the model keeps the pairs \<open>(tgid, uid)\<close> and
  \<open>(groupId, offset)\<close>. Of a \<^verbatim>\<open>SessionChannel\<close> it keeps the identity and the id, not the
  message queue. Group ids are integers without a bound.
\<close>

record SessionChannel =
  mTgid :: int
  mUid :: int
  mId :: "int \<times> int"

record ChannelGroup =
  mLiveChannels :: int
  mGroupId :: int
  mChannels :: "SessionChannel option list"

definition ChannelGroup_new :: "int \<Rightarrow> ChannelGroup" where
  "ChannelGroup_new gid =
     \<lparr>mLiveChannels = 0, mGroupId = gid, mChannels = replicate kMaxChannels None\<rparr>"

text \<open>
  An array index outside \<^verbatim>\<open>mChannels\<close> is undefined behaviour and \<^verbatim>\<open>LOG_ALWAYS_FATAL_IF\<close>
  aborts the process: both are the result \<open>None\<close>.
\<close>

definition channel_at :: "ChannelGroup \<Rightarrow> int \<Rightarrow> SessionChannel option option" where
  "channel_at g slotNo =
     (if 0 \<le> slotNo \<and> slotNo < int (length (mChannels g))
      then Some (mChannels g ! nat slotNo) else None)"

definition removeChannel :: "ChannelGroup \<Rightarrow> int \<Rightarrow> (bool \<times> ChannelGroup) option" where
  "removeChannel g slotNo =
     (case channel_at g slotNo of
        None \<Rightarrow> None
      | Some None \<Rightarrow> Some (False, g)
      | Some (Some c) \<Rightarrow>
          Some (True, g\<lparr>mChannels := (mChannels g)[nat slotNo := None],
                         mLiveChannels := mLiveChannels g - 1\<rparr>))"

text \<open>The scan of \<^verbatim>\<open>createChannel\<close> for the first empty slot; the length when all are taken.\<close>

fun firstFree :: "SessionChannel option list \<Rightarrow> nat" where
  "firstFree [] = 0"
| "firstFree (c # cs) = (if c = None then 0 else Suc (firstFree cs))"

definition createChannel ::
  "ChannelGroup \<Rightarrow> int \<Rightarrow> int \<Rightarrow> (SessionChannel \<times> ChannelGroup) option" where
  "createChannel g tgid uid =
     (let slotNo = firstFree (take kMaxChannels (mChannels g))
      in if slotNo = kMaxChannels \<or> length (mChannels g) \<le> slotNo then None
         else
           (let channel = \<lparr>mTgid = tgid, mUid = uid, mId = (mGroupId g, int slotNo)\<rparr>
            in Some (channel,
                     g\<lparr>mLiveChannels := mLiveChannels g + 1,
                       mChannels := (mChannels g)[slotNo := Some channel]\<rparr>)))"

definition getChannel :: "ChannelGroup \<Rightarrow> int \<Rightarrow> SessionChannel option" where
  "getChannel g slotNo =
     (case channel_at g slotNo of None \<Rightarrow> None | Some None \<Rightarrow> None | Some (Some c) \<Rightarrow> Some c)"

text \<open>
  \<^verbatim>\<open>mChannelGroups\<close> is a \<^verbatim>\<open>std::map\<close>, iterated in the order of the group ids: a list of
  pairs in ascending order of the ids. \<^verbatim>\<open>mChannelMap\<close> is a map from identities to ids.
\<close>

record ChannelManager =
  mChannelGroups :: "(int \<times> ChannelGroup) list"
  mChannelMap :: "int \<times> int \<rightharpoonup> int \<times> int"

definition ChannelManager_new :: ChannelManager where
  "ChannelManager_new = \<lparr>mChannelGroups = [], mChannelMap = Map.empty\<rparr>"

text \<open>Assignment to the group stored under an id, and \<^verbatim>\<open>erase\<close> of an id.\<close>

definition setGroup :: "int \<Rightarrow> ChannelGroup \<Rightarrow> (int \<times> ChannelGroup) list \<Rightarrow> (int \<times> ChannelGroup) list" where
  "setGroup gid g groups = map (\<lambda>p. if fst p = gid then (gid, g) else p) groups"

definition eraseGroup :: "int \<Rightarrow> (int \<times> ChannelGroup) list \<Rightarrow> (int \<times> ChannelGroup) list" where
  "eraseGroup gid groups = filter (\<lambda>p. fst p \<noteq> gid) groups"

text \<open>
  \<^verbatim>\<open>emplace\<close> of a new group: nothing happens when the id is present; the new id of
  \<^verbatim>\<open>getOrCreateChannel\<close> is above every id present, so the new pair goes last.
\<close>

definition emplaceGroup :: "int \<Rightarrow> (int \<times> ChannelGroup) list \<Rightarrow> (int \<times> ChannelGroup) list" where
  "emplaceGroup gid groups =
     (if gid \<in> fst ` set groups then groups else groups @ [(gid, ChannelGroup_new gid)])"

definition closeChannel :: "ChannelManager \<Rightarrow> int \<Rightarrow> int \<Rightarrow> (bool \<times> ChannelManager) option" where
  "closeChannel m tgid uid =
     (case mChannelMap m (tgid, uid) of
        None \<Rightarrow> Some (False, m)
      | Some v \<Rightarrow>
          (case map_of (mChannelGroups m) (fst v) of
             None \<Rightarrow> Some (False, m)
           | Some g \<Rightarrow>
               (case removeChannel g (snd v) of
                  None \<Rightarrow> None
                | Some r \<Rightarrow>
                    if \<not> fst r then Some (False, m)
                    else
                      Some (True,
                            m\<lparr>mChannelGroups :=
                                (if mLiveChannels (snd r) = 0
                                 then eraseGroup (fst v) (mChannelGroups m)
                                 else setGroup (fst v) (snd r) (mChannelGroups m)),
                              mChannelMap := (mChannelMap m)((tgid, uid) := None)\<rparr>))))"

text \<open>The search of \<^verbatim>\<open>getOrCreateChannel\<close> for a group with room; \<open>-1\<close> when there is none.\<close>

definition groupWithRoom :: "(int \<times> ChannelGroup) list \<Rightarrow> int" where
  "groupWithRoom groups =
     (case find (\<lambda>p. mLiveChannels (snd p) < int kMaxChannels) groups of
        None \<Rightarrow> - 1
      | Some p \<Rightarrow> fst p)"

definition getOrCreateChannel ::
  "ChannelManager \<Rightarrow> int \<Rightarrow> int \<Rightarrow> (SessionChannel \<times> ChannelManager) option" where
  "getOrCreateChannel m tgid uid =
     (case mChannelMap m (tgid, uid) of
        Some v \<Rightarrow>
          (case map_of (mChannelGroups m) (fst v) of
             None \<Rightarrow> None
           | Some g \<Rightarrow>
               (case getChannel g (snd v) of None \<Rightarrow> None | Some c \<Rightarrow> Some (c, m)))
      | None \<Rightarrow>
          (let found = groupWithRoom (mChannelGroups m);
               groupId =
                 (if found = - 1
                  then (if mChannelGroups m = [] then 0 else fst (last (mChannelGroups m)) + 1)
                  else found);
               groups =
                 (if found = - 1 then emplaceGroup groupId (mChannelGroups m)
                  else mChannelGroups m)
           in (case map_of groups groupId of
                 None \<Rightarrow> None
               | Some g \<Rightarrow>
                   (case createChannel g tgid uid of
                      None \<Rightarrow> None
                    | Some cg \<Rightarrow>
                        Some (fst cg,
                              m\<lparr>mChannelGroups := setGroup groupId (snd cg) groups,
                                mChannelMap := (mChannelMap m)((tgid, uid) \<mapsto> mId (fst cg))\<rparr>)))))"

text \<open>
  \<^verbatim>\<open>getChannelConfig\<close> fills the configuration from the channel; for the manager it is
  \<^verbatim>\<open>getOrCreateChannel\<close>. \<open>isValid\<close> tells whether the queue of a channel was built.
\<close>

definition getChannelConfig ::
  "(SessionChannel \<Rightarrow> bool) \<Rightarrow> ChannelManager \<Rightarrow> int \<Rightarrow> int \<Rightarrow> (bool \<times> ChannelManager) option" where
  "getChannelConfig isValid m tgid uid =
     (case getOrCreateChannel m tgid uid of
        None \<Rightarrow> None
      | Some cm \<Rightarrow>
          if \<not> isValid (fst cm) then Some (False, snd cm)
          else (case map_of (mChannelGroups (snd cm)) (fst (mId (fst cm))) of
                  None \<Rightarrow> None
                | Some g \<Rightarrow> Some (True, snd cm)))"

definition getGroupCount :: "ChannelManager \<Rightarrow> int" where
  "getGroupCount m = int (length (mChannelGroups m))"

definition getChannelCount :: "ChannelManager \<Rightarrow> int" where
  "getChannelCount m = sum_list (map (\<lambda>p. mLiveChannels (snd p)) (mChannelGroups m))"

subsection \<open>Sequences of calls\<close>

datatype channel_call = GetConfig int int | Close int int

fun call :: "(SessionChannel \<Rightarrow> bool) \<Rightarrow> ChannelManager \<Rightarrow> channel_call \<Rightarrow> ChannelManager option" where
  "call isValid m (GetConfig tgid uid) = map_option snd (getChannelConfig isValid m tgid uid)"
| "call isValid m (Close tgid uid) = map_option snd (closeChannel m tgid uid)"

fun calls :: "(SessionChannel \<Rightarrow> bool) \<Rightarrow> ChannelManager \<Rightarrow> channel_call list \<Rightarrow> ChannelManager option" where
  "calls isValid m [] = Some m"
| "calls isValid m (c # cs) =
     (case call isValid m c of None \<Rightarrow> None | Some m' \<Rightarrow> calls isValid m' cs)"

text \<open>The identities registered by a sequence of calls and not closed since.\<close>

fun registered :: "(int \<times> int) set \<Rightarrow> channel_call list \<Rightarrow> (int \<times> int) set" where
  "registered S [] = S"
| "registered S (GetConfig tgid uid # cs) = registered (insert (tgid, uid) S) cs"
| "registered S (Close tgid uid # cs) = registered (S - {(tgid, uid)}) cs"

fun isGetConfig :: "channel_call \<Rightarrow> bool" where
  "isGetConfig (GetConfig tgid uid) = True"
| "isGetConfig (Close tgid uid) = False"

subsection \<open>The invariant of the manager\<close>

definition occupied :: "ChannelGroup \<Rightarrow> nat" where
  "occupied g = length (filter (\<lambda>c. c \<noteq> None) (mChannels g))"

definition groupOk :: "int \<times> ChannelGroup \<Rightarrow> bool" where
  "groupOk p =
     (0 \<le> fst p \<and> mGroupId (snd p) = fst p \<and> length (mChannels (snd p)) = kMaxChannels
      \<and> mLiveChannels (snd p) = int (occupied (snd p))
      \<and> (\<forall>c. Some c \<in> set (mChannels (snd p)) \<longrightarrow> fst (mId c) = fst p))"

definition managerOk :: "ChannelManager \<Rightarrow> bool" where
  "managerOk m =
     (sorted_wrt (<) (map fst (mChannelGroups m))
      \<and> (\<forall>p \<in> set (mChannelGroups m). groupOk p)
      \<and> (\<forall>key v. mChannelMap m key = Some v \<longrightarrow>
            (\<exists>g. map_of (mChannelGroups m) (fst v) = Some g \<and> 0 \<le> snd v
                 \<and> snd v < int kMaxChannels \<and> mChannels g ! nat (snd v) \<noteq> None))
      \<and> inj_on (mChannelMap m) (dom (mChannelMap m))
      \<and> finite (dom (mChannelMap m))
      \<and> getChannelCount m = int (card (dom (mChannelMap m))))"

text \<open>
  When channels are only added, the groups fill up in order: every group but the one
  with the last id is full, and no group is empty.
\<close>

definition filledInOrder :: "ChannelManager \<Rightarrow> bool" where
  "filledInOrder m =
     (\<forall>p \<in> set (mChannelGroups m).
        1 \<le> mLiveChannels (snd p)
        \<and> (mLiveChannels (snd p) = int kMaxChannels \<or> fst p = fst (last (mChannelGroups m))))"

text \<open>
  The calls of the test \<^verbatim>\<open>testManyChannelsSpawnMoreGroups\<close>: channel \<open>i\<close> is asked for
  with the identity \<open>(3000 + i, 4000 + i)\<close>.
\<close>

definition spawnChannels :: "nat \<Rightarrow> channel_call list" where
  "spawnChannels n = map (\<lambda>i. GetConfig (3000 + int i) (4000 + int i)) [0 ..< n]"

section \<open>SupportManager (SupportManager.cpp)\<close>

datatype Mode =
    DOUBLE_TAP_TO_WAKE | LOW_POWER | SUSTAINED_PERFORMANCE | FIXED_PERFORMANCE | VR | LAUNCH
  | EXPENSIVE_RENDERING | INTERACTIVE | DEVICE_IDLE | DISPLAY_INACTIVE
  | AUDIO_STREAMING_LOW_LATENCY | CAMERA_STREAMING_SECURE | CAMERA_STREAMING_LOW
  | CAMERA_STREAMING_MID | CAMERA_STREAMING_HIGH | GAME | GAME_LOADING | DISPLAY_CHANGE
  | AUTOMOTIVE_PROJECTION

datatype Boost =
    INTERACTION | DISPLAY_UPDATE_IMMINENT | ML_ACC | AUDIO_LAUNCH | CAMERA_LAUNCH | CAMERA_SHOT

datatype SessionHint =
    CPU_LOAD_UP | CPU_LOAD_DOWN | CPU_LOAD_RESET | CPU_LOAD_RESUME | HINT_POWER_EFFICIENCY
  | GPU_LOAD_UP | GPU_LOAD_DOWN | GPU_LOAD_RESET | CPU_LOAD_SPIKE | GPU_LOAD_SPIKE

datatype SessionMode = MODE_POWER_EFFICIENCY | GRAPHICS_PIPELINE | AUTO_CPU | AUTO_GPU

datatype SessionTag = OTHER | SURFACEFLINGER | HWUI | TAG_GAME | APP | SYSUI

text \<open>
  The enumerators \<^verbatim>\<open>SessionHint::POWER_EFFICIENCY\<close>, \<^verbatim>\<open>SessionMode::POWER_EFFICIENCY\<close>
  and \<^verbatim>\<open>SessionTag::GAME\<close> carry a prefix here, since HOL constructors share one name
  space. The tables are the initializer lists of the source, in its order; the
  \<^verbatim>\<open>std::map\<close> built from each of them is the lookup \<^const>\<open>map_of\<close>.
\<close>

definition kModeEarliestVersion :: "(Mode \<times> int) list" where
  "kModeEarliestVersion =
     [(DOUBLE_TAP_TO_WAKE, 1), (LOW_POWER, 1), (SUSTAINED_PERFORMANCE, 1),
      (FIXED_PERFORMANCE, 1), (VR, 1), (LAUNCH, 1), (EXPENSIVE_RENDERING, 1),
      (INTERACTIVE, 1), (DEVICE_IDLE, 1), (DISPLAY_INACTIVE, 1),
      (AUDIO_STREAMING_LOW_LATENCY, 1), (CAMERA_STREAMING_SECURE, 1),
      (CAMERA_STREAMING_LOW, 1), (CAMERA_STREAMING_MID, 1), (CAMERA_STREAMING_HIGH, 1),
      (GAME, 3), (GAME_LOADING, 3), (DISPLAY_CHANGE, 5), (AUTOMOTIVE_PROJECTION, 5)]"

definition kBoostEarliestVersion :: "(Boost \<times> int) list" where
  "kBoostEarliestVersion =
     [(INTERACTION, 1), (DISPLAY_UPDATE_IMMINENT, 1), (ML_ACC, 1), (AUDIO_LAUNCH, 1),
      (CAMERA_LAUNCH, 1), (CAMERA_SHOT, 1)]"

definition kSessionHintEarliestVersion :: "(SessionHint \<times> int) list" where
  "kSessionHintEarliestVersion =
     [(CPU_LOAD_UP, 4), (CPU_LOAD_DOWN, 4), (CPU_LOAD_RESET, 4), (CPU_LOAD_RESUME, 4),
      (HINT_POWER_EFFICIENCY, 4), (GPU_LOAD_UP, 5), (GPU_LOAD_DOWN, 5), (GPU_LOAD_RESET, 5),
      (CPU_LOAD_SPIKE, 6), (GPU_LOAD_SPIKE, 6)]"

definition kSessionModeEarliestVersion :: "(SessionMode \<times> int) list" where
  "kSessionModeEarliestVersion =
     [(MODE_POWER_EFFICIENCY, 5), (GRAPHICS_PIPELINE, 6), (AUTO_CPU, 6), (AUTO_GPU, 6)]"

definition kSessionTagEarliestVersion :: "(SessionTag \<times> int) list" where
  "kSessionTagEarliestVersion =
     [(OTHER, 5), (SURFACEFLINGER, 5), (HWUI, 5), (TAG_GAME, 5), (APP, 5), (SYSUI, 6)]"

text \<open>The AIDL generated \<^verbatim>\<open>toString\<close> of an enumerator is its name.\<close>

fun toString_Mode :: "Mode \<Rightarrow> string" where
  "toString_Mode DOUBLE_TAP_TO_WAKE = ''DOUBLE_TAP_TO_WAKE''"
| "toString_Mode LOW_POWER = ''LOW_POWER''"
| "toString_Mode SUSTAINED_PERFORMANCE = ''SUSTAINED_PERFORMANCE''"
| "toString_Mode FIXED_PERFORMANCE = ''FIXED_PERFORMANCE''"
| "toString_Mode VR = ''VR''"
| "toString_Mode LAUNCH = ''LAUNCH''"
| "toString_Mode EXPENSIVE_RENDERING = ''EXPENSIVE_RENDERING''"
| "toString_Mode INTERACTIVE = ''INTERACTIVE''"
| "toString_Mode DEVICE_IDLE = ''DEVICE_IDLE''"
| "toString_Mode DISPLAY_INACTIVE = ''DISPLAY_INACTIVE''"
| "toString_Mode AUDIO_STREAMING_LOW_LATENCY = ''AUDIO_STREAMING_LOW_LATENCY''"
| "toString_Mode CAMERA_STREAMING_SECURE = ''CAMERA_STREAMING_SECURE''"
| "toString_Mode CAMERA_STREAMING_LOW = ''CAMERA_STREAMING_LOW''"
| "toString_Mode CAMERA_STREAMING_MID = ''CAMERA_STREAMING_MID''"
| "toString_Mode CAMERA_STREAMING_HIGH = ''CAMERA_STREAMING_HIGH''"
| "toString_Mode GAME = ''GAME''"
| "toString_Mode GAME_LOADING = ''GAME_LOADING''"
| "toString_Mode DISPLAY_CHANGE = ''DISPLAY_CHANGE''"
| "toString_Mode AUTOMOTIVE_PROJECTION = ''AUTOMOTIVE_PROJECTION''"

fun toString_Boost :: "Boost \<Rightarrow> string" where
  "toString_Boost INTERACTION = ''INTERACTION''"
| "toString_Boost DISPLAY_UPDATE_IMMINENT = ''DISPLAY_UPDATE_IMMINENT''"
| "toString_Boost ML_ACC = ''ML_ACC''"
| "toString_Boost AUDIO_LAUNCH = ''AUDIO_LAUNCH''"
| "toString_Boost CAMERA_LAUNCH = ''CAMERA_LAUNCH''"
| "toString_Boost CAMERA_SHOT = ''CAMERA_SHOT''"

text \<open>
  The configuration the predicates consult: the two \<^verbatim>\<open>HintManager\<close> queries (the class
  is configured from a file at start) and the version constant of the \<^verbatim>\<open>IPower\<close>
  interface the HAL was built against.
\<close>

record HintManager =
  IsHintSupported :: "string \<Rightarrow> bool"
  IsAdpfProfileSupported :: "string \<Rightarrow> bool"

definition modeSupported :: "HintManager \<Rightarrow> int \<Rightarrow> Mode \<Rightarrow> bool" where
  "modeSupported hm version type =
     (case map_of kModeEarliestVersion type of
        None \<Rightarrow> False
      | Some earliest \<Rightarrow>
          if version < earliest then False
          else
            (let supported = IsHintSupported hm (toString_Mode type) in
             if type = LOW_POWER then True
             else if \<not> supported \<and> IsAdpfProfileSupported hm (toString_Mode type) then True
             else supported))"

definition boostSupported :: "HintManager \<Rightarrow> int \<Rightarrow> Boost \<Rightarrow> bool" where
  "boostSupported hm version type =
     (case map_of kBoostEarliestVersion type of
        None \<Rightarrow> False
      | Some earliest \<Rightarrow>
          if version < earliest then False
          else
            (let supported = IsHintSupported hm (toString_Boost type) in
             if \<not> supported \<and> IsAdpfProfileSupported hm (toString_Boost type) then True
             else supported))"

definition sessionHintSupported :: "int \<Rightarrow> SessionHint \<Rightarrow> bool" where
  "sessionHintSupported version type =
     (case map_of kSessionHintEarliestVersion type of
        None \<Rightarrow> False
      | Some earliest \<Rightarrow>
          if version < earliest then False
          else (case type of HINT_POWER_EFFICIENCY \<Rightarrow> False | _ \<Rightarrow> True))"

definition sessionModeSupported :: "int \<Rightarrow> SessionMode \<Rightarrow> bool" where
  "sessionModeSupported version type =
     (case map_of kSessionModeEarliestVersion type of
        None \<Rightarrow> False
      | Some earliest \<Rightarrow>
          if version < earliest then False
          else (case type of
                  MODE_POWER_EFFICIENCY \<Rightarrow> False
                | GRAPHICS_PIPELINE \<Rightarrow> False
                | _ \<Rightarrow> True))"

definition sessionTagSupported :: "int \<Rightarrow> SessionTag \<Rightarrow> bool" where
  "sessionTagSupported version type =
     (case map_of kSessionTagEarliestVersion type of
        None \<Rightarrow> False
      | Some earliest \<Rightarrow> if version < earliest then False else True)"

section \<open>Properties of the double arithmetic\<close>

lemma bit_length_pos: "0 < n \<Longrightarrow> bit_length n = 1 + bit_length (n div 2)"
  by (subst bit_length.simps) simp

lemma bit_length_nonpos: "n \<le> 0 \<Longrightarrow> bit_length n = 0"
  by (subst bit_length.simps) simp

lemma bit_length_bounds:
  "0 < n \<Longrightarrow> 1 \<le> bit_length n \<and> 2 ^ nat (bit_length n - 1) \<le> n \<and> n < 2 ^ nat (bit_length n)"
proof (induction n rule: bit_length.induct)
  case (1 n)
  show ?case
  proof (cases "n = 1")
    case True
    then show ?thesis by (simp add: bit_length_pos bit_length_nonpos)
  next
    case False
    with 1(2) have m: "0 < n div 2" by simp
    define b where "b = bit_length (n div 2)"
    from 1(1) 1(2) m have ih: "1 \<le> b" "2 ^ nat (b - 1) \<le> n div 2" "n div 2 < 2 ^ nat b"
      by (simp_all add: b_def)
    have bl: "bit_length n = 1 + b" using 1(2) by (simp add: bit_length_pos b_def)
    have p: "(2::int) ^ nat b = 2 * 2 ^ nat (b - 1)"
      using ih(1) by (metis Suc_nat_eq_nat_zadd1 add.commute diff_add_cancel diff_ge_0_iff_ge power_Suc)
    have lo: "2 ^ nat b \<le> n" using ih(2) p by linarith
    have hi: "n < 2 * 2 ^ nat b" using ih(3) by linarith
    have p2: "(2::int) ^ nat (1 + b) = 2 * 2 ^ nat b"
      using ih(1) by (simp add: nat_add_distrib)
    show ?thesis using bl lo hi ih(1) p2 by simp
  qed
qed

lemma round_half_even_of_int: "round_half_even (of_int j) = j"
  by (simp add: round_half_even_def)

lemma round_double_of_int:
  assumes "\<bar>i\<bar> < 9007199254740992"
  shows "round_double (of_int i) = Finite (of_int i)"
proof (cases "i = 0")
  case True
  then show ?thesis by (simp add: round_double_def)
next
  case False
  define a where "a = \<bar>i\<bar>"
  define k where "k = bit_length a - 1"
  have apos: "0 < a" using False by (simp add: a_def)
  have ax: "\<bar>rat_of_int i\<bar> = of_int a" by (simp add: a_def)
  from bit_length_bounds[OF apos]
  have b: "0 \<le> k" "2 ^ nat k \<le> a" "a < 2 ^ nat (k + 1)" by (simp_all add: k_def)
  have one: "(1::rat) \<le> of_int a" using apos by simp
  have pk: "pow2 k = of_int (2 ^ nat k)" using b(1) by (simp add: pow2_def)
  have le: "pow2 k \<le> of_int a" unfolding pk using b(2) by (simp only: of_int_le_iff)
  have bin: "binade (of_int i) = k"
    unfolding binade_def ax using one le by (simp add: k_def Let_def)
  have k52: "k \<le> 52"
  proof (rule ccontr)
    assume "\<not> k \<le> 52"
    then have "53 \<le> nat k" by simp
    then have "(2::int) ^ 53 \<le> 2 ^ nat k" by (rule power_increasing) simp
    with b(2) assms show False by (simp add: a_def)
  qed
  define d where "d = nat (52 - k)"
  have q: "max (k - 52) (- 1074) = - int d" using k52 b(1) by (simp add: d_def)
  have pq: "pow2 (- int d) = 1 / 2 ^ d" by (simp add: pow2_def)
  have sc: "of_int a / pow2 (- int d) = rat_of_int (a * 2 ^ d)" by (simp add: pq)
  have y: "of_int (round_half_even (of_int a / pow2 (- int d))) * pow2 (- int d) = rat_of_int a"
    unfolding sc round_half_even_of_int by (simp add: pq)
  have big: "\<not> pow2 1024 \<le> rat_of_int a"
  proof -
    have "rat_of_int a < of_int 9007199254740992" using assms unfolding a_def by (simp only: of_int_less_iff)
    also have "\<dots> \<le> pow2 1024" by (simp add: pow2_def)
    finally show ?thesis by simp
  qed
  have sg: "sgn (rat_of_int i) * of_int a = of_int i"
    by (simp add: a_def sgn_if)
  show ?thesis
    unfolding round_double_def bin q ax Let_def y
    using False big sg by simp
qed

lemma round_double_code [code]:
  "round_double x =
     (if x = of_int \<lfloor>x\<rfloor> \<and> \<bar>x\<bar> < 9007199254740992 then Finite x
      else if x = 0 then Finite 0
      else
        (let q = max (binade x - 52) (- 1074);
             y = of_int (round_half_even (\<bar>x\<bar> / pow2 q)) * pow2 q
         in if pow2 1024 \<le> y then (if 0 < x then PosInf else NegInf)
            else Finite (sgn x * y)))"
proof (cases "x = of_int \<lfloor>x\<rfloor> \<and> \<bar>x\<bar> < 9007199254740992")
  case True
  then have "\<bar>\<lfloor>x\<rfloor>\<bar> < 9007199254740992"
    by (metis of_int_abs of_int_less_iff of_int_numeral)
  from round_double_of_int[OF this] True show ?thesis by simp
next
  case False
  then show ?thesis unfolding round_double_def by (simp only: if_False)
qed

text \<open>
  The literal \<open>1.4\<close> is not a binary fraction, and a product with it is rounded again:
  \<open>11000 * 1.4\<close> in \<^verbatim>\<open>double\<close> is below \<open>15400\<close>, its exact value.
\<close>

lemma round_double_literal:
  "round_double (14 / 10) = Finite (6305039478318694 / 4503599627370496)"
  by code_simp

lemma rounded_product_below_exact:
  "double_less (double_times (double_of_int 11000) (round_double (14 / 10)))
     (double_of_int 15400)"
  by code_simp

section \<open>Properties of SessionRecords\<close>

text \<open>
  C1. A session with \<open>maxNumOfRecords = 5\<close> and \<open>jankCheckTimeFactor = 1.5\<close> is fed the
  batches \<open>{3,4,3,2}\<close> ms, \<open>{2,1,2}\<close> ms and \<open>{10,2,9,8,4,5,7,6}\<close> ms against a 3 ms
  target. After the first batch it holds 4 records with maximum 4000 us, average 3000 us
  and no missed cycle; after the second 5 records, 3000 us, 2000 us, none missed; after
  the third 5 records, 8000 us, 6000 us and 4 missed cycles.
\<close>

theorem addReportedDurations_test_batches:
  "map_option sessionQueries
     (thenReport (newSession 5 (Finite (3 / 2))) (fakeWorkDurations [3, 4, 3, 2]) (MS_TO_NS 3) False)
     = Some (4, Some (Some (MS_TO_US 4)), Some (MS_TO_US 3), 0)
   \<and> map_option sessionQueries
       (thenReport
          (thenReport (newSession 5 (Finite (3 / 2))) (fakeWorkDurations [3, 4, 3, 2]) (MS_TO_NS 3) False)
          (fakeWorkDurations [2, 1, 2]) (MS_TO_NS 3) False)
     = Some (5, Some (Some (MS_TO_US 3)), Some (MS_TO_US 2), 0)
   \<and> map_option sessionQueries
       (thenReport
          (thenReport
             (thenReport (newSession 5 (Finite (3 / 2))) (fakeWorkDurations [3, 4, 3, 2]) (MS_TO_NS 3) False)
             (fakeWorkDurations [2, 1, 2]) (MS_TO_NS 3) False)
          (fakeWorkDurations [10, 2, 9, 8, 4, 5, 7, 6]) (MS_TO_NS 3) False)
     = Some (5, Some (Some (MS_TO_US 8)), Some (MS_TO_US 6), 4)"
  by code_simp

text \<open>
  With a factor of \<open>1.4\<close> and a target of 11 ms the rounded product is below 15400 us,
  and a frame of exactly 15.4 ms counts as a missed cycle.
\<close>

lemma missed_cycle_by_rounding:
  "map_option (getNumOfMissedCycles \<circ> fst)
     (thenReport (newSession 5 (round_double (14 / 10)))
        [\<lparr>timeStampNanos = 0, durationNanos = 15400000\<rparr>] (MS_TO_NS 11) False)
   = Some 1"
  by code_simp

subsection \<open>Field effects of the loop body\<close>

lemma trunc_mod_nonneg: "0 \<le> a \<Longrightarrow> 0 < b \<Longrightarrow> trunc_mod a b = a mod b"
  by (simp add: trunc_mod_def trunc_div_def sgn_if minus_mult_div_eq_mod)

lemma evictOldest_fields:
  assumes "evictOldest s = Some s1"
  shows "mRecords s1 = mRecords s" "kMaxNumOfRecords s1 = kMaxNumOfRecords s"
    "mLatestRecordIndex s1 = mLatestRecordIndex s"
    "mLatestStartIntervalSumUs s1 = mLatestStartIntervalSumUs s"
    "mNumOfFrames s1 =
       (if mNumOfFrames s \<ge> kMaxNumOfRecords s then mNumOfFrames s - 1 else mNumOfFrames s)"
  using assms
  by (auto simp: evictOldest_def Let_def split: if_splits option.splits list.splits)

lemma trackFPSJitter_fields:
  assumes "trackFPSJitter s i c = Some js"
  shows "mRecords (snd js) = mRecords s" "kMaxNumOfRecords (snd js) = kMaxNumOfRecords s"
    "mLatestRecordIndex (snd js) = mLatestRecordIndex s"
    "mNumOfFrames (snd js) = mNumOfFrames s"
  using assms
  by (auto simp: trackFPSJitter_def Let_def split: if_splits option.splits)

lemma trackFPSJitter_off:
  "trackFPSJitter s i False = Some js \<Longrightarrow> mLatestStartIntervalSumUs (snd js) = 0"
  by (auto simp: trackFPSJitter_def)

lemma storeRecord_fields:
  assumes "storeRecord t s b i d j = Some sb"
  shows "length (mRecords (fst sb)) = length (mRecords s)"
    "kMaxNumOfRecords (fst sb) = kMaxNumOfRecords s"
    "mLatestRecordIndex (fst sb) = mLatestRecordIndex s"
    "mNumOfFrames (fst sb) = mNumOfFrames s + 1"
    "mLatestStartIntervalSumUs (fst sb) = mLatestStartIntervalSumUs s"
  using assms
  by (auto simp: storeRecord_def Let_def record_put_def split: if_splits option.splits)

lemma addReportedDuration_sum_off:
  assumes "addReportedDuration t False sb d = Some sb'"
  shows "mLatestStartIntervalSumUs (fst sb') = 0"
  using assms
  by (auto simp: addReportedDuration_def Let_def storeRecord_fields(5) trackFPSJitter_off
           split: if_splits option.splits)

lemma addReportedDurations_sum_off:
  "addReportedDurations sb ds t False = Some sb' \<Longrightarrow> ds \<noteq> [] \<Longrightarrow>
     mLatestStartIntervalSumUs (fst sb') = 0"
proof (induction ds arbitrary: sb)
  case Nil
  then show ?case by simp
next
  case (Cons d ds)
  from Cons.prems(1) obtain sb1 where
    one: "addReportedDuration t False sb d = Some sb1" and
    rest: "addReportedDurations sb1 ds t False = Some sb'"
    by (auto split: option.splits)
  show ?case
  proof (cases ds)
    case Nil
    with rest one show ?thesis by (simp add: addReportedDuration_sum_off)
  next
    case (Cons e es)
    with Cons.IH[OF rest] show ?thesis by simp
  qed
qed

subsection \<open>The ring invariant holds in every reachable state\<close>

lemma ringOk_new: "SessionRecords_new n f = Some s \<Longrightarrow> ringOk s"
  by (auto simp: SessionRecords_new_def ringOk_def split: if_splits)

lemma ringOk_resetRecords: "ringOk s \<Longrightarrow> ringOk (resetRecords s)"
  by (simp add: ringOk_def resetRecords_def)

lemma ringOk_addReportedDuration:
  assumes "addReportedDuration t c sb d = Some sb'" "ringOk (fst sb)"
  shows "ringOk (fst sb')"
proof -
  from assms(1) obtain s1 js where
    e: "evictOldest (fst sb) = Some s1" and k: "kMaxNumOfRecords s1 \<noteq> 0" and
    j: "trackFPSJitter (s1\<lparr>mLatestRecordIndex :=
                               trunc_mod (mLatestRecordIndex s1 + 1) (kMaxNumOfRecords s1),
                            mLastStartTimeNs := timeStampNanos d - durationNanos d\<rparr>)
          (if mNumOfFrames s1 > 0
           then to_int32 (trunc_div (timeStampNanos d - durationNanos d - mLastStartTimeNs s1) 1000)
           else 0) c = Some js" and
    st: "storeRecord t (snd js) (snd sb)
          (if mNumOfFrames s1 > 0
           then to_int32 (trunc_div (timeStampNanos d - durationNanos d - mLastStartTimeNs s1) 1000)
           else 0)
          (to_int32 (trunc_div (durationNanos d) 1000)) (fst js) = Some sb'"
    by (auto simp: addReportedDuration_def Let_def split: if_splits option.splits)
  note ef = evictOldest_fields[OF e]
  note jf = trackFPSJitter_fields[OF j]
  note sf = storeRecord_fields[OF st]
  have kpos: "0 < kMaxNumOfRecords (fst sb)"
    using assms(2) k ef(2) by (auto simp: ringOk_def)
  have lat: "0 \<le> mLatestRecordIndex (fst sb) + 1" using assms(2) by (simp add: ringOk_def)
  have idx: "mLatestRecordIndex (fst sb') =
               (mLatestRecordIndex (fst sb) + 1) mod kMaxNumOfRecords (fst sb)"
    using sf(3) jf(3) ef trunc_mod_nonneg[OF lat kpos] by simp
  have fr: "0 \<le> mNumOfFrames s1" using ef(5) assms(2) kpos by (auto simp: ringOk_def)
  have m: "0 \<le> mLatestRecordIndex (fst sb')"
         "mLatestRecordIndex (fst sb') < kMaxNumOfRecords (fst sb')"
    using idx kpos sf(2) jf(2) ef(2) by simp_all
  have len: "length (mRecords (fst sb')) = nat (kMaxNumOfRecords (fst sb'))"
    using sf(1,2) jf(1,2) ef(1,2) assms(2) by (simp add: ringOk_def)
  have n: "0 < mNumOfFrames (fst sb')" using sf(4) jf(4) fr by simp
  have kk: "0 \<le> kMaxNumOfRecords (fst sb')" using kpos sf(2) jf(2) ef(2) by simp
  show ?thesis
    unfolding ringOk_def using m len n kk by simp
qed

lemma ringOk_addReportedDurations:
  "addReportedDurations sb ds t c = Some sb' \<Longrightarrow> ringOk (fst sb) \<Longrightarrow> ringOk (fst sb')"
proof (induction ds arbitrary: sb)
  case Nil
  then show ?case by simp
next
  case (Cons d ds)
  from Cons.prems(1) obtain sb1 where
    one: "addReportedDuration t c sb d = Some sb1" and
    rest: "addReportedDurations sb1 ds t c = Some sb'"
    by (auto split: option.splits)
  from ringOk_addReportedDuration[OF one Cons.prems(2)] Cons.IH[OF rest]
  show ?case by simp
qed

subsection \<open>Division in getLatestFPS\<close>

lemma rolling_sum_wraps:
  "map_option (mLatestStartIntervalSumUs \<circ> snd)
     (trackFPSJitter (s\<lparr>mAddedFramesForFPSCheck := 0, mLatestStartIntervalSumUs := 2147483647\<rparr>)
        1 True)
   = Some (- 2147483648)"
  by (simp add: trackFPSJitter_def kTotalFramesForFPSCheck_def to_int32_def)

lemma trunc_div_remainder:
  assumes "0 \<le> a" "b \<noteq> 0"
  shows "0 \<le> a - trunc_div a b * b" "a - trunc_div a b * b < \<bar>b\<bar>"
proof -
  have q: "trunc_div a b * b = \<bar>b\<bar> * (a div \<bar>b\<bar>)"
    using assms by (auto simp: trunc_div_def sgn_if abs_if)
  have r: "a - \<bar>b\<bar> * (a div \<bar>b\<bar>) = a mod \<bar>b\<bar>"
    by (simp add: minus_mult_div_eq_mod)
  show "0 \<le> a - trunc_div a b * b" unfolding q r using assms(2) by simp
  show "a - trunc_div a b * b < \<bar>b\<bar>" unfolding q r using assms(2) by simp
qed

text \<open>
  C5. \<^verbatim>\<open>getLatestFPS\<close> returns the quotient of \<open>1000000 * 3\<close> by the rolling
  start-interval sum, truncated towards zero, and there is no guard: it divides by zero
  exactly when the sum is zero. States with a zero sum are reachable: the sum is zero in
  a freshly constructed session, and it is zero after every call of
  \<^verbatim>\<open>addReportedDurations\<close> with \<^verbatim>\<open>computeFPSJitters = false\<close> that is given at least one
  duration. The reset is in the body of the loop over the durations, so a call with an
  empty batch returns the session as it was, the sum included.
\<close>

theorem getLatestFPS_divides_by_zero:
  "(getLatestFPS s = Inl DivideByZero \<longleftrightarrow> mLatestStartIntervalSumUs s = 0)
   \<and> (mLatestStartIntervalSumUs s \<noteq> 0 \<longrightarrow>
        (\<exists>q. getLatestFPS s = Inr q
           \<and> 0 \<le> 1000000 * 3 - q * mLatestStartIntervalSumUs s
           \<and> 1000000 * 3 - q * mLatestStartIntervalSumUs s < \<bar>mLatestStartIntervalSumUs s\<bar>))
   \<and> (SessionRecords_new n f = Some s0 \<longrightarrow> getLatestFPS s0 = Inl DivideByZero)
   \<and> (ds \<noteq> [] \<and> addReportedDurations sb ds t False = Some sb'
        \<longrightarrow> getLatestFPS (fst sb') = Inl DivideByZero)
   \<and> addReportedDurations sb [] t c = Some sb"
proof (intro conjI impI)
  show "getLatestFPS s = Inl DivideByZero \<longleftrightarrow> mLatestStartIntervalSumUs s = 0"
    by (simp add: getLatestFPS_def)
next
  assume nz: "mLatestStartIntervalSumUs s \<noteq> 0"
  define q where "q = trunc_div (1000000 * 3) (mLatestStartIntervalSumUs s)"
  have g: "getLatestFPS s = Inr q"
    using nz by (simp add: getLatestFPS_def q_def kTotalFramesForFPSCheck_def)
  have "(0::int) \<le> 1000000 * 3" by simp
  from trunc_div_remainder[OF this nz]
  have "0 \<le> 1000000 * 3 - q * mLatestStartIntervalSumUs s"
       "1000000 * 3 - q * mLatestStartIntervalSumUs s < \<bar>mLatestStartIntervalSumUs s\<bar>"
    unfolding q_def by simp_all
  with g show "\<exists>q. getLatestFPS s = Inr q
           \<and> 0 \<le> 1000000 * 3 - q * mLatestStartIntervalSumUs s
           \<and> 1000000 * 3 - q * mLatestStartIntervalSumUs s < \<bar>mLatestStartIntervalSumUs s\<bar>"
    by blast
next
  assume "SessionRecords_new n f = Some s0"
  then show "getLatestFPS s0 = Inl DivideByZero"
    by (auto simp: SessionRecords_new_def getLatestFPS_def split: if_splits)
next
  assume "ds \<noteq> [] \<and> addReportedDurations sb ds t False = Some sb'"
  then have "mLatestStartIntervalSumUs (fst sb') = 0"
    using addReportedDurations_sum_off by blast
  then show "getLatestFPS (fst sb') = Inl DivideByZero"
    by (simp add: getLatestFPS_def)
next
  show "addReportedDurations sb [] t c = Some sb" by simp
qed

theorem getLatestFPS_divides_by_zero_witness:
  "map_option (getLatestFPS \<circ> fst) (newSession 5 (Finite (3 / 2))) = Some (Inl DivideByZero)
   \<and> map_option (getLatestFPS \<circ> fst) jitterSession = Some (Inr 100)
   \<and> map_option (getLatestFPS \<circ> fst)
       (thenReport jitterSession (fakeReportedDurations [(160, 8), (170, 8)]) (MS_TO_NS 10) False)
     = Some (Inl DivideByZero)"
proof -
  obtain s0 where s0: "SessionRecords_new 5 (Finite (3 / 2)) = Some s0"
    by (simp add: SessionRecords_new_def)
  have ne: "fakeReportedDurations [(160, 8), (170, 8)] \<noteq> []"
    by (simp add: fakeReportedDurations_def)
  have j: "jitterSession \<noteq> None" by code_simp
  then obtain sb where sb: "jitterSession = Some sb" by auto
  have "map_option (mLatestStartIntervalSumUs \<circ> fst) jitterSession = Some 30000" by code_simp
  then have sum: "mLatestStartIntervalSumUs (fst sb) = 30000" by (simp add: sb)
  have "thenReport jitterSession (fakeReportedDurations [(160, 8), (170, 8)]) (MS_TO_NS 10) False
          \<noteq> None"
    by code_simp
  then obtain sb' where sb':
    "addReportedDurations sb (fakeReportedDurations [(160, 8), (170, 8)]) (MS_TO_NS 10) False
       = Some sb'"
    by (auto simp: sb thenReport_def)
  note fact = getLatestFPS_divides_by_zero[of "fst sb" 5 "Finite (3 / 2)" s0
      "fakeReportedDurations [(160, 8), (170, 8)]" sb "MS_TO_NS 10" sb' False]
  have a: "getLatestFPS s0 = Inl DivideByZero" using fact s0 by blast
  have c: "getLatestFPS (fst sb') = Inl DivideByZero" using fact ne sb' by blast
  from fact sum obtain q where
    q: "getLatestFPS (fst sb) = Inr q" "0 \<le> 1000000 * 3 - q * 30000"
       "1000000 * 3 - q * 30000 < (30000::int)"
    by auto
  from q(2,3) have "q = 100" by arith
  with q(1) have b: "getLatestFPS (fst sb) = Inr 100" by simp
  show ?thesis
    using a b c by (simp add: newSession_def s0 sb sb' thenReport_def)
qed

text \<open>
  A call with \<^verbatim>\<open>computeFPSJitters = false\<close> does not always reset the sum: with an
  empty batch the loop body does not run, and the session of the jitter test keeps its
  sum of 30000 us and its 100 frames per second.
\<close>

theorem getLatestFPS_empty_batch_counterexample:
  "map_option (\<lambda>sb. (mLatestStartIntervalSumUs (fst sb), getLatestFPS (fst sb)))
     (thenReport jitterSession [] (MS_TO_NS 10) False)
   = Some (30000, Inr 100)"
  by code_simp

subsection \<open>Low frame rate\<close>

lemma map_option_the: "x \<noteq> None \<Longrightarrow> f (the x) = y \<Longrightarrow> map_option f x = Some y"
  by (cases x) auto

lemma ring_prev:
  "0 \<le> i \<Longrightarrow> i < k \<Longrightarrow> (if i = 0 then k - 1 else i - 1) = (i - 1) mod (k::int)"
  by (auto simp: zmod_minus1 mod_pos_pos_trivial)

lemma ring_prev2:
  "((i - 1) mod k - 1) mod k = (i - 2) mod (k::int)"
  by (metis diff_diff_eq mod_diff_left_eq one_add_one)

text \<open>
  C6. In a state with at least 3 records whose last three records (the latest ring
  position and the two before it, wrapping) each have a start interval of at least
  \<open>1000000 / thresholdFps\<close>, \<^verbatim>\<open>isLowFrameRate\<close> returns true; in a state with fewer
  than 3 records it returns false whatever the intervals are. The states are those of
  the ring invariant, which the constructor establishes and every operation keeps, and
  the threshold is not zero, so that the quotient is defined.
\<close>

theorem isLowFrameRate_last_three:
  "(ringOk s \<and> 3 \<le> mNumOfFrames s \<and> fps \<noteq> 0
      \<and> rat_of_int (intervalBefore s 0) \<ge> 1000000 / rat_of_int fps
      \<and> rat_of_int (intervalBefore s 1) \<ge> 1000000 / rat_of_int fps
      \<and> rat_of_int (intervalBefore s 2) \<ge> 1000000 / rat_of_int fps
      \<longrightarrow> isLowFrameRate s fps = Some True)
   \<and> (mNumOfFrames s < 3 \<longrightarrow> isLowFrameRate s fps = Some False)"
proof (intro conjI impI)
  assume "mNumOfFrames s < 3"
  then show "isLowFrameRate s fps = Some False"
    by (simp add: isLowFrameRate_def)
next
  assume a: "ringOk s \<and> 3 \<le> mNumOfFrames s \<and> fps \<noteq> 0
      \<and> rat_of_int (intervalBefore s 0) \<ge> 1000000 / rat_of_int fps
      \<and> rat_of_int (intervalBefore s 1) \<ge> 1000000 / rat_of_int fps
      \<and> rat_of_int (intervalBefore s 2) \<ge> 1000000 / rat_of_int fps"
  define i where "i = mLatestRecordIndex s"
  define k where "k = kMaxNumOfRecords s"
  have n: "3 \<le> mNumOfFrames s" using a by simp
  have r: "0 \<le> i" "i < k" "length (mRecords s) = nat k"
    using a by (auto simp: i_def k_def ringOk_def)
  have i2: "(if i = 0 then k - 1 else i - 1) = (i - 1) mod k"
    using r ring_prev by blast
  have i2r: "0 \<le> (i - 1) mod k" "(i - 1) mod k < k" using r by simp_all
  have i3: "(if (i - 1) mod k = 0 then k - 1 else (i - 1) mod k - 1) = (i - 2) mod k"
    using ring_prev[OF i2r] ring_prev2 by simp
  have i3r: "0 \<le> (i - 2) mod k" "(i - 2) mod k < k" using r by simp_all
  have i1: "(i - 0) mod k = i" using r by simp
  have t1: "reachesCycleThreshold (startIntervalUs (mRecords s ! nat i)) fps"
    using a i1 by (simp add: reachesCycleThreshold_def intervalBefore_def i_def[symmetric] k_def[symmetric])
  have t2: "reachesCycleThreshold (startIntervalUs (mRecords s ! nat ((i - 1) mod k))) fps"
    using a by (simp add: reachesCycleThreshold_def intervalBefore_def i_def k_def)
  have t3: "reachesCycleThreshold (startIntervalUs (mRecords s ! nat ((i - 2) mod k))) fps"
    using a by (simp add: reachesCycleThreshold_def intervalBefore_def i_def k_def)
  have g1: "record_at (mRecords s) i = Some (mRecords s ! nat i)"
    using r by (simp add: record_at_def)
  have g2: "record_at (mRecords s) ((i - 1) mod k) = Some (mRecords s ! nat ((i - 1) mod k))"
    using r i2r by (simp add: record_at_def)
  have g3: "record_at (mRecords s) ((i - 2) mod k) = Some (mRecords s ! nat ((i - 2) mod k))"
    using r i3r by (simp add: record_at_def)
  show "isLowFrameRate s fps = Some True"
    unfolding isLowFrameRate_def Let_def
    apply (fold i_def k_def)
    apply (simp only: i2 i3)
    apply (simp only: g1 g2 g3 t1 t2 t3 n option.case if_True if_False not_True_eq_False)
    done
qed

theorem isLowFrameRate_last_three_witness:
  "map_option (\<lambda>sb. isLowFrameRate (fst sb) 25) lowRateSession = Some (Some True)
   \<and> map_option (\<lambda>sb. isLowFrameRate (fst sb) 25) (newSession 5 (Finite (3 / 2))) = Some (Some False)"
proof -
  have ne: "lowRateSession \<noteq> None" by code_simp
  have p1: "ringOk (fst (the lowRateSession))" by code_simp
  have p2: "3 \<le> mNumOfFrames (fst (the lowRateSession))" by code_simp
  have p3: "rat_of_int (intervalBefore (fst (the lowRateSession)) 0) \<ge> 1000000 / rat_of_int 25"
    by code_simp
  have p4: "rat_of_int (intervalBefore (fst (the lowRateSession)) 1) \<ge> 1000000 / rat_of_int 25"
    by code_simp
  have p5: "rat_of_int (intervalBefore (fst (the lowRateSession)) 2) \<ge> 1000000 / rat_of_int 25"
    by code_simp
  have f: "(25::int) \<noteq> 0" by simp
  have hi: "isLowFrameRate (fst (the lowRateSession)) 25 = Some True"
    using isLowFrameRate_last_three[of "fst (the lowRateSession)" 25] p1 p2 p3 p4 p5 f by blast
  have ne0: "newSession 5 (Finite (3 / 2)) \<noteq> None" by code_simp
  have q: "mNumOfFrames (fst (the (newSession 5 (Finite (3 / 2))))) < 3" by code_simp
  have lo: "isLowFrameRate (fst (the (newSession 5 (Finite (3 / 2))))) 25 = Some False"
    using isLowFrameRate_last_three[of "fst (the (newSession 5 (Finite (3 / 2))))" 25] q by blast
  show ?thesis
    using map_option_the[OF ne, of "\<lambda>sb. isLowFrameRate (fst sb) 25", OF hi]
      map_option_the[OF ne0, of "\<lambda>sb. isLowFrameRate (fst sb) 25", OF lo]
    by simp
qed

section \<open>Properties of FrameBuckets\<close>

lemma counters_addUpNewFrames:
  "counters (addUpNewFrames a b) = map2 (+) (counters a) (counters b)"
  by (simp add: counters_def addUpNewFrames_def)

lemma toString_zero_total:
  "sint (totalNumOfFrames b) \<le> 0 \<Longrightarrow> toString fmt b = ''JankFramesInBuckets: 0%-0%-0%-0%-0%-0''"
  by (simp add: toString_def)

text \<open>
  C4, as the source has it. \<^verbatim>\<open>A.addUpNewFrames(B)\<close> makes each of the six counters of
  \<open>A\<close> the sum of the two original counters (the 64-bit sum, which is the integer sum
  whenever that fits an \<^verbatim>\<open>int64_t\<close>), and \<^verbatim>\<open>toString\<close> then renders the record of the
  sums. For a total that is not positive \<^verbatim>\<open>toString\<close> produces the prefix followed by
  the zero pattern, \<^verbatim>\<open>JankFramesInBuckets: 0%-0%-0%-0%-0%-0\<close>.
\<close>

theorem addUpNewFrames_sum_and_rendering:
  "counters (addUpNewFrames a b) = map2 (+) (counters a) (counters b)
   \<and> (\<forall>i < 6. - (2 ^ 63) \<le> sint (counters a ! i) + sint (counters b ! i)
                \<and> sint (counters a ! i) + sint (counters b ! i) < 2 ^ 63
         \<longrightarrow> sint (counters (addUpNewFrames a b) ! i)
               = sint (counters a ! i) + sint (counters b ! i))
   \<and> toString fmt (addUpNewFrames a b)
       = toString fmt
           \<lparr>totalNumOfFrames = totalNumOfFrames a + totalNumOfFrames b,
            numOfFrames17to25ms = numOfFrames17to25ms a + numOfFrames17to25ms b,
            numOfFrames25to34ms = numOfFrames25to34ms a + numOfFrames25to34ms b,
            numOfFrames34to67ms = numOfFrames34to67ms a + numOfFrames34to67ms b,
            numOfFrames67to100ms = numOfFrames67to100ms a + numOfFrames67to100ms b,
            numOfFramesOver100ms = numOfFramesOver100ms a + numOfFramesOver100ms b\<rparr>
   \<and> (sint (totalNumOfFrames c) \<le> 0
        \<longrightarrow> toString fmt c = ''JankFramesInBuckets: 0%-0%-0%-0%-0%-0'')"
proof (intro conjI allI impI)
  show "counters (addUpNewFrames a b) = map2 (+) (counters a) (counters b)"
    by (rule counters_addUpNewFrames)
next
  fix i :: nat
  assume i: "i < 6"
    and fits: "- (2 ^ 63) \<le> sint (counters a ! i) + sint (counters b ! i)
                \<and> sint (counters a ! i) + sint (counters b ! i) < 2 ^ 63"
  have len: "length (counters a) = 6" "length (counters b) = 6" by (simp_all add: counters_def)
  have "counters (addUpNewFrames a b) ! i = counters a ! i + counters b ! i"
    using i len by (simp add: counters_addUpNewFrames)
  moreover have "sint (counters a ! i + counters b ! i)
                   = sint (counters a ! i) + sint (counters b ! i)"
    using fits by (simp add: sint_word_add signed_take_bit_int_eq_self)
  ultimately show "sint (counters (addUpNewFrames a b) ! i)
                     = sint (counters a ! i) + sint (counters b ! i)"
    by simp
next
  have "addUpNewFrames a b =
          \<lparr>totalNumOfFrames = totalNumOfFrames a + totalNumOfFrames b,
           numOfFrames17to25ms = numOfFrames17to25ms a + numOfFrames17to25ms b,
           numOfFrames25to34ms = numOfFrames25to34ms a + numOfFrames25to34ms b,
           numOfFrames34to67ms = numOfFrames34to67ms a + numOfFrames34to67ms b,
           numOfFrames67to100ms = numOfFrames67to100ms a + numOfFrames67to100ms b,
           numOfFramesOver100ms = numOfFramesOver100ms a + numOfFramesOver100ms b\<rparr>"
    by (simp add: addUpNewFrames_def)
  then show "toString fmt (addUpNewFrames a b)
       = toString fmt
           \<lparr>totalNumOfFrames = totalNumOfFrames a + totalNumOfFrames b,
            numOfFrames17to25ms = numOfFrames17to25ms a + numOfFrames17to25ms b,
            numOfFrames25to34ms = numOfFrames25to34ms a + numOfFrames25to34ms b,
            numOfFrames34to67ms = numOfFrames34to67ms a + numOfFrames34to67ms b,
            numOfFrames67to100ms = numOfFrames67to100ms a + numOfFrames67to100ms b,
            numOfFramesOver100ms = numOfFramesOver100ms a + numOfFramesOver100ms b\<rparr>"
    by simp
next
  assume "sint (totalNumOfFrames c) \<le> 0"
  then show "toString fmt c = ''JankFramesInBuckets: 0%-0%-0%-0%-0%-0''"
    by (rule toString_zero_total)
qed

text \<open>
  The buckets of the test \<^verbatim>\<open>updateFrameBuckets\<close>: eight frames with one in each band,
  then the \<^verbatim>\<open>newBuckets{2, 1, 1, 1, 1, 0}\<close> added to them.
\<close>

theorem addUpNewFrames_sum_and_rendering_witness:
  "counters (addUpNewFrames
       \<lparr>totalNumOfFrames = 8, numOfFrames17to25ms = 1, numOfFrames25to34ms = 1,
        numOfFrames34to67ms = 1, numOfFrames67to100ms = 1, numOfFramesOver100ms = 1\<rparr>
       \<lparr>totalNumOfFrames = 2, numOfFrames17to25ms = 1, numOfFrames25to34ms = 1,
        numOfFrames34to67ms = 1, numOfFrames67to100ms = 1, numOfFramesOver100ms = 0\<rparr>)
     = [10, 2, 2, 2, 2, 1]
   \<and> toString showHundredths (addUpNewFrames
       \<lparr>totalNumOfFrames = 8, numOfFrames17to25ms = 1, numOfFrames25to34ms = 1,
        numOfFrames34to67ms = 1, numOfFrames67to100ms = 1, numOfFramesOver100ms = 1\<rparr>
       \<lparr>totalNumOfFrames = 2, numOfFrames17to25ms = 1, numOfFrames25to34ms = 1,
        numOfFrames34to67ms = 1, numOfFrames67to100ms = 1, numOfFramesOver100ms = 0\<rparr>)
     = ''JankFramesInBuckets: 20%(2)-20%(2)-20%(2)-20%(2)-10%(1)-10''
   \<and> sint (totalNumOfFrames FrameBuckets_init) \<le> 0
   \<and> toString showHundredths FrameBuckets_init = ''JankFramesInBuckets: 0%-0%-0%-0%-0%-0''"
proof -
  let ?a = "\<lparr>totalNumOfFrames = 8, numOfFrames17to25ms = 1, numOfFrames25to34ms = 1,
        numOfFrames34to67ms = 1, numOfFrames67to100ms = 1, numOfFramesOver100ms = 1\<rparr>"
  let ?b = "\<lparr>totalNumOfFrames = 2, numOfFrames17to25ms = 1, numOfFrames25to34ms = 1,
        numOfFrames34to67ms = 1, numOfFrames67to100ms = 1, numOfFramesOver100ms = 0\<rparr>"
  note t = addUpNewFrames_sum_and_rendering[of ?a ?b showHundredths FrameBuckets_init]
  have z: "sint (totalNumOfFrames FrameBuckets_init) \<le> 0"
    by (simp add: FrameBuckets_init_def)
  have c: "counters (addUpNewFrames ?a ?b) = [10, 2, 2, 2, 2, 1]"
    using t by (simp add: counters_def)
  have r: "toString showHundredths
             \<lparr>totalNumOfFrames = 8 + 2, numOfFrames17to25ms = 1 + 1, numOfFrames25to34ms = 1 + 1,
              numOfFrames34to67ms = 1 + 1, numOfFrames67to100ms = 1 + 1,
              numOfFramesOver100ms = 1 + 0\<rparr>
           = ''JankFramesInBuckets: 20%(2)-20%(2)-20%(2)-20%(2)-10%(1)-10''"
    by code_simp
  show ?thesis using t z c r by simp
qed

text \<open>
  The rendering of a bucket with no frames is not the bare zero pattern: the prefix
  \<^verbatim>\<open>JankFramesInBuckets: \<close> is written before the total is looked at.
\<close>

theorem toString_zero_total_counterexample:
  "sint (totalNumOfFrames FrameBuckets_init) \<le> 0
   \<and> toString showHundredths FrameBuckets_init \<noteq> ''0%-0%-0%-0%-0%-0''"
  by (simp add: toString_def FrameBuckets_init_def)

section \<open>Properties of BatteryFGReporter\<close>

lemma unsigned_bound_of_signed:
  "8 \<le> sint (x :: 32 word) \<Longrightarrow> (8 :: 32 word) \<le> x"
proof -
  assume a: "8 \<le> sint x"
  have "- (2 ^ 31) \<le> (0 :: int)" by simp
  also have "0 \<le> uint x" by simp
  finally have "- (2 ^ 31) \<le> uint x" .
  then have "sint x \<le> uint x"
    by (simp add: sint_uint signed_take_bit_int_less_eq_self_iff)
  then have "8 \<le> uint x" using a by simp
  then show ?thesis by (simp add: word_le_def)
qed

lemma signed_range_of_unsigned:
  "x < (8 :: 32 word) \<Longrightarrow> 0 \<le> sint x \<and> sint x \<le> 7"
proof -
  assume "x < 8"
  then have u: "uint x < 8" by (simp add: word_less_def)
  have "- (2 ^ 31) \<le> (0 :: int)" by simp
  also have "0 \<le> uint x" by simp
  finally have lo: "- (2 ^ 31) \<le> uint x" .
  have hi: "uint x < 2 ^ 31" using u by simp
  from lo hi have "sint x = uint x"
    by (simp add: sint_uint signed_take_bit_int_eq_self)
  then show ?thesis using u by simp
qed

text \<open>
  C9. When the event index of the record is 8 (\<^verbatim>\<open>kNumMaxEvents\<close>) or more,
  \<^verbatim>\<open>reportFGEvent\<close> returns with no atom reported, every trigger time as it was and
  the record untouched. Every atom that is reported has an event index from 0 to 7; a
  negative index compares as a large unsigned value and is rejected as well.
\<close>

theorem reportFGEvent_rejects_large_events:
  "(8 \<le> sint (event data) \<longrightarrow> reportFGEvent r now data = (r, data, []))
   \<and> (sint (event data) < 0 \<longrightarrow> reportFGEvent r now data = (r, data, []))
   \<and> (\<forall>atom \<in> set (snd (snd (reportFGEvent r now data))).
         0 \<le> sint (event atom) \<and> sint (event atom) \<le> 7)"
proof (intro conjI impI ballI)
  assume "8 \<le> sint (event data)"
  then have "kNumMaxEvents \<le> event data"
    unfolding kNumMaxEvents_def by (rule unsigned_bound_of_signed)
  then show "reportFGEvent r now data = (r, data, [])"
    by (simp add: reportFGEvent_def)
next
  assume neg: "sint (event data) < 0"
  have "\<not> event data < 8"
    using signed_range_of_unsigned[of "event data"] neg by auto
  then have "kNumMaxEvents \<le> event data"
    by (simp add: kNumMaxEvents_def not_less)
  then show "reportFGEvent r now data = (r, data, [])"
    by (simp add: reportFGEvent_def)
next
  fix atom
  assume a: "atom \<in> set (snd (snd (reportFGEvent r now data)))"
  then have small: "event data < 8" and ev: "event atom = event data"
    by (auto simp: reportFGEvent_def Let_def kNumMaxEvents_def not_le split: if_splits)
  from signed_range_of_unsigned[OF small] ev
  show "0 \<le> sint (event atom)" and "sint (event atom) \<le> 7" by simp_all
qed

text \<open>
  Event 8 and event \<open>-1\<close> leave a reporter with a pending trigger time as it is; event 7
  in trigger state is reported with the state shifted by one.
\<close>

theorem reportFGEvent_rejects_large_events_witness:
  "reportFGEvent \<lparr>ab_trigger_time = (\<lambda>i. 5), last_ab_check = 0\<rparr> 100
       \<lparr>event = 8, state = 1, duration = 0, regs = []\<rparr>
     = (\<lparr>ab_trigger_time = (\<lambda>i. 5), last_ab_check = 0\<rparr>,
        \<lparr>event = 8, state = 1, duration = 0, regs = []\<rparr>, [])
   \<and> reportFGEvent \<lparr>ab_trigger_time = (\<lambda>i. 5), last_ab_check = 0\<rparr> 100
       \<lparr>event = - 1, state = 1, duration = 0, regs = []\<rparr>
     = (\<lparr>ab_trigger_time = (\<lambda>i. 5), last_ab_check = 0\<rparr>,
        \<lparr>event = - 1, state = 1, duration = 0, regs = []\<rparr>, [])
   \<and> snd (snd (reportFGEvent \<lparr>ab_trigger_time = (\<lambda>i. 0), last_ab_check = 0\<rparr> 100
       \<lparr>event = 7, state = 1, duration = 0, regs = []\<rparr>))
     = [\<lparr>event = 7, state = 2, duration = 0, regs = []\<rparr>]"
proof -
  have a: "8 \<le> sint (event \<lparr>event = 8, state = 1, duration = 0, regs = []\<rparr>)" by simp
  have b: "sint (event \<lparr>event = - 1, state = 1, duration = 0, regs = []\<rparr>) < 0" by simp
  have c: "snd (snd (reportFGEvent \<lparr>ab_trigger_time = (\<lambda>i. 0), last_ab_check = 0\<rparr> 100
       \<lparr>event = 7, state = 1, duration = 0, regs = []\<rparr>))
     = [\<lparr>event = 7, state = 2, duration = 0, regs = []\<rparr>]"
    by (simp add: reportFGEvent_def kNumMaxEvents_def Let_def)
  show ?thesis
    using reportFGEvent_rejects_large_events
            [of "\<lparr>event = 8, state = 1, duration = 0, regs = []\<rparr>"
                "\<lparr>ab_trigger_time = (\<lambda>i. 5), last_ab_check = 0\<rparr>" 100] a
          reportFGEvent_rejects_large_events
            [of "\<lparr>event = - 1, state = 1, duration = 0, regs = []\<rparr>"
                "\<lparr>ab_trigger_time = (\<lambda>i. 5), last_ab_check = 0\<rparr>" 100] b c
    by blast
qed

section \<open>Properties of the timer loop of SysfsCollector\<close>

lemma kWakes_values: "kWakesPer5Min = 1" "kWakesPerHour = 12" "kWakesPerDay = 288"
  by (simp_all add: kWakesPer5Min_def kWakesPerHour_def kWakesPerDay_def kSecondsPerWake_def
        trunc_div_def)

lemma to_int32_id: "- 2147483648 \<le> x \<Longrightarrow> x < 2147483648 \<Longrightarrow> to_int32 x = x"
  by (simp add: to_int32_def)

lemma add_expirations_exact:
  "0 \<le> wake \<Longrightarrow> wake + int count < 2147483648 \<Longrightarrow> add_expirations wake count = wake + int count"
  by (simp add: add_expirations_def to_int32_id)

lemma wake_pass_exact:
  assumes "counters_reduced w" "int count < 2 ^ 31 - kWakesPerDay"
  shows "wake_pass w count =
           (\<lparr>wake_5min = (wake_5min w + int count) mod kWakesPer5Min,
             wake_hours = (wake_hours w + int count) mod kWakesPerHour,
             wake_days = (wake_days w + int count) mod kWakesPerDay\<rparr>,
            (if kWakesPer5Min \<le> wake_5min w + int count then [aggregatePer5Min] else []) @
            (if kWakesPerHour \<le> wake_hours w + int count then [logPerHour] else []) @
            (if kWakesPerDay \<le> wake_days w + int count then [logPerDay] else []))"
proof -
  have b: "0 \<le> wake_5min w" "wake_5min w < 1" "0 \<le> wake_hours w" "wake_hours w < 12"
    "0 \<le> wake_days w" "wake_days w < 288" "int count < 2147483360"
    using assms by (simp_all add: counters_reduced_def kWakes_values)
  have m: "add_expirations (wake_5min w) count = wake_5min w + int count"
    using b by (intro add_expirations_exact) simp_all
  have h: "add_expirations (wake_hours w) count = wake_hours w + int count"
    using b by (intro add_expirations_exact) simp_all
  have d: "add_expirations (wake_days w) count = wake_days w + int count"
    using b by (intro add_expirations_exact) simp_all
  have r5: "wake_5min w + int count = 0" if "\<not> 1 \<le> wake_5min w + int count"
    using that b by simp
  have rh: "(wake_hours w + int count) mod 12 = wake_hours w + int count"
    if "\<not> 12 \<le> wake_hours w + int count"
    using that b by simp
  have rd: "(wake_days w + int count) mod 288 = wake_days w + int count"
    if "\<not> 288 \<le> wake_days w + int count"
    using that b by simp
  have tm: "trunc_mod x k = x mod k" if "k \<le> x" "0 < k" for x k :: int
    using that by (simp add: trunc_mod_nonneg)
  show ?thesis
    unfolding wake_pass_def Let_def m h d kWakes_values
    using r5 rh rd by (simp add: tm)
qed

lemma div_step:
  fixes n k :: int
  assumes "0 < k"
  shows "(n + 1) div k = n div k + (if k \<le> n mod k + 1 then 1 else 0)"
proof -
  have r: "0 \<le> n mod k" "n mod k < k" using assms by simp_all
  have "n + 1 = k * (n div k) + (n mod k + 1)" by simp
  then have "(n + 1) div k = (k * (n div k) + (n mod k + 1)) div k" by simp
  also have "\<dots> = n div k + (n mod k + 1) div k"
    using assms by (simp only: div_mult_self4) 
  also have "(n mod k + 1) div k = (if k \<le> n mod k + 1 then 1 else 0)"
  proof (cases "k \<le> n mod k + 1")
    case True
    then have "n mod k + 1 = k" using r by simp
    then show ?thesis using assms by simp
  next
    case False
    then show ?thesis using r by (simp add: div_pos_pos_trivial)
  qed
  finally show ?thesis .
qed

lemma mod_step: "(n mod k + 1) mod k = (n + 1) mod (k :: int)"
  by (simp add: mod_add_left_eq)

lemma wake_loop_append:
  "wake_loop w (xs @ ys) =
     (fst (wake_loop (fst (wake_loop w xs)) ys),
      snd (wake_loop w xs) @ snd (wake_loop (fst (wake_loop w xs)) ys))"
  by (induction xs arbitrary: w) (simp_all add: Let_def)

lemma wake_loop_unit_ticks:
  "fst (wake_loop wake_start (replicate n 1)) =
     \<lparr>wake_5min = 0, wake_hours = int n mod 12, wake_days = int n mod 288\<rparr>
   \<and> int (count_list (snd (wake_loop wake_start (replicate n 1))) logPerHour) = int n div 12
   \<and> int (count_list (snd (wake_loop wake_start (replicate n 1))) logPerDay) = int n div 288"
proof (induction n)
  case 0
  show ?case by (simp add: wake_start_def)
next
  case (Suc n)
  let ?w = "\<lparr>wake_5min = 0, wake_hours = int n mod 12, wake_days = int n mod 288\<rparr>"
  have red: "counters_reduced ?w" by (simp add: counters_reduced_def kWakes_values)
  have small: "int (1::nat) < 2 ^ 31 - kWakesPerDay" by (simp add: kWakes_values)
  have pass: "wake_pass ?w 1 =
      (\<lparr>wake_5min = 0, wake_hours = (int n mod 12 + 1) mod 12,
        wake_days = (int n mod 288 + 1) mod 288\<rparr>,
       [aggregatePer5Min] @ (if 12 \<le> int n mod 12 + 1 then [logPerHour] else []) @
       (if 288 \<le> int n mod 288 + 1 then [logPerDay] else []))"
    using wake_pass_exact[OF red small] by (simp add: kWakes_values)
  have split: "replicate (Suc n) (1::nat) = replicate n 1 @ [1]"
    by (simp add: replicate_append_same)
  have a1: "(int n mod 12 + 1) mod 12 = (int n + 1) mod 12" by (rule mod_step)
  have a2: "(int n mod 288 + 1) mod 288 = (int n + 1) mod 288" by (rule mod_step)
  have a3: "(int n + 1) div 12 = int n div 12 + (if 12 \<le> int n mod 12 + 1 then 1 else 0)"
    by (rule div_step) simp
  have a4: "(int n + 1) div 288 = int n div 288 + (if 288 \<le> int n mod 288 + 1 then 1 else 0)"
    by (rule div_step) simp
  have f: "fst (wake_loop wake_start (replicate n 1)) = ?w" using Suc.IH by simp
  have one: "wake_loop ?w [1] =
      (\<lparr>wake_5min = 0, wake_hours = (int n + 1) mod 12, wake_days = (int n + 1) mod 288\<rparr>,
       [aggregatePer5Min] @ (if 12 \<le> int n mod 12 + 1 then [logPerHour] else []) @
       (if 288 \<le> int n mod 288 + 1 then [logPerDay] else []))"
    by (simp only: wake_loop.simps Let_def pass a1 a2 fst_conv snd_conv append_Nil2)
  have sucn: "int (Suc n) = int n + 1" by simp
  have l: "wake_loop wake_start (replicate (Suc n) 1) =
      (\<lparr>wake_5min = 0, wake_hours = (int n + 1) mod 12, wake_days = (int n + 1) mod 288\<rparr>,
       snd (wake_loop wake_start (replicate n 1)) @
       ([aggregatePer5Min] @ (if 12 \<le> int n mod 12 + 1 then [logPerHour] else []) @
        (if 288 \<le> int n mod 288 + 1 then [logPerDay] else [])))"
    by (simp only: split wake_loop_append f one fst_conv snd_conv)
  have ch: "int (count_list (snd (wake_loop wake_start (replicate (Suc n) 1))) logPerHour)
              = int n div 12 + (if 12 \<le> int n mod 12 + 1 then 1 else 0)"
    unfolding l using Suc.IH by simp
  have cd: "int (count_list (snd (wake_loop wake_start (replicate (Suc n) 1))) logPerDay)
              = int n div 288 + (if 288 \<le> int n mod 288 + 1 then 1 else 0)"
    unfolding l using Suc.IH by simp
  show ?case
    unfolding sucn a3 a4 using l ch cd by (simp only: fst_conv simp_thms)
qed

text \<open>
  C8. In one pass of the timer loop that starts with reduced counters and reads an
  expiration count that does not overflow them, \<^verbatim>\<open>logPerHour\<close> runs exactly when the
  hourly counter, with the count added, has reached 12 (\<^verbatim>\<open>kWakesPerHour\<close>) and
  \<^verbatim>\<open>logPerDay\<close> exactly when the daily counter has reached 288 (\<^verbatim>\<open>kWakesPerDay\<close>); the
  counters are left reduced modulo their periods, so they stay below 12 and 288. For
  every number \<open>n\<close> of elapsed 5-minute ticks read one at a time, the counters are
  \<open>n mod 12\<close> and \<open>n mod 288\<close>, \<^verbatim>\<open>logPerHour\<close> has run \<open>n div 12\<close> times and
  \<^verbatim>\<open>logPerDay\<close> \<open>n div 288\<close> times: once at each multiple of the period.
\<close>

theorem wake_loop_periods:
  "(counters_reduced w \<and> int count < 2 ^ 31 - kWakesPerDay \<longrightarrow>
      (logPerHour \<in> set (snd (wake_pass w count)) \<longleftrightarrow> kWakesPerHour \<le> wake_hours w + int count)
      \<and> (logPerDay \<in> set (snd (wake_pass w count)) \<longleftrightarrow> kWakesPerDay \<le> wake_days w + int count)
      \<and> wake_hours (fst (wake_pass w count)) = (wake_hours w + int count) mod kWakesPerHour
      \<and> wake_days (fst (wake_pass w count)) = (wake_days w + int count) mod kWakesPerDay
      \<and> counters_reduced (fst (wake_pass w count)))
   \<and> wake_hours (fst (wake_loop wake_start (replicate n 1))) = int n mod kWakesPerHour
   \<and> wake_days (fst (wake_loop wake_start (replicate n 1))) = int n mod kWakesPerDay
   \<and> int (count_list (snd (wake_loop wake_start (replicate n 1))) logPerHour)
       = int n div kWakesPerHour
   \<and> int (count_list (snd (wake_loop wake_start (replicate n 1))) logPerDay)
       = int n div kWakesPerDay"
proof (intro conjI impI)
  assume a: "counters_reduced w \<and> int count < 2 ^ 31 - kWakesPerDay"
  then have e: "wake_pass w count =
           (\<lparr>wake_5min = (wake_5min w + int count) mod kWakesPer5Min,
             wake_hours = (wake_hours w + int count) mod kWakesPerHour,
             wake_days = (wake_days w + int count) mod kWakesPerDay\<rparr>,
            (if kWakesPer5Min \<le> wake_5min w + int count then [aggregatePer5Min] else []) @
            (if kWakesPerHour \<le> wake_hours w + int count then [logPerHour] else []) @
            (if kWakesPerDay \<le> wake_days w + int count then [logPerDay] else []))"
    using wake_pass_exact by blast
  show "logPerHour \<in> set (snd (wake_pass w count)) \<longleftrightarrow> kWakesPerHour \<le> wake_hours w + int count"
    unfolding e by simp
  show "logPerDay \<in> set (snd (wake_pass w count)) \<longleftrightarrow> kWakesPerDay \<le> wake_days w + int count"
    unfolding e by simp
  show "wake_hours (fst (wake_pass w count)) = (wake_hours w + int count) mod kWakesPerHour"
    unfolding e by simp
  show "wake_days (fst (wake_pass w count)) = (wake_days w + int count) mod kWakesPerDay"
    unfolding e by simp
  show "counters_reduced (fst (wake_pass w count))"
    unfolding e by (simp add: counters_reduced_def kWakes_values)
next
  show "wake_hours (fst (wake_loop wake_start (replicate n 1))) = int n mod kWakesPerHour"
    using wake_loop_unit_ticks[of n] by (simp add: kWakes_values)
  show "wake_days (fst (wake_loop wake_start (replicate n 1))) = int n mod kWakesPerDay"
    using wake_loop_unit_ticks[of n] by (simp add: kWakes_values)
  show "int (count_list (snd (wake_loop wake_start (replicate n 1))) logPerHour)
          = int n div kWakesPerHour"
    using wake_loop_unit_ticks[of n] by (simp add: kWakes_values)
  show "int (count_list (snd (wake_loop wake_start (replicate n 1))) logPerDay)
          = int n div kWakesPerDay"
    using wake_loop_unit_ticks[of n] by (simp add: kWakes_values)
qed

text \<open>
  A pass with hourly counter 11 and one expiration runs \<^verbatim>\<open>logPerHour\<close> and resets the
  counter; a pass that slept through 30 ticks runs it once and keeps the remainder 6.
\<close>

theorem wake_loop_periods_witness:
  "wake_pass \<lparr>wake_5min = 0, wake_hours = 11, wake_days = 100\<rparr> 1
     = (\<lparr>wake_5min = 0, wake_hours = 0, wake_days = 101\<rparr>, [aggregatePer5Min, logPerHour])
   \<and> logPerHour \<in> set (snd (wake_pass wake_start 30))
   \<and> wake_hours (fst (wake_pass wake_start 30)) = 6
   \<and> counters_reduced (fst (wake_pass wake_start 30))"
proof -
  have r: "counters_reduced wake_start \<and> int 30 < 2 ^ 31 - kWakesPerDay"
    by (simp add: counters_reduced_def wake_start_def kWakes_values)
  have t: "kWakesPerHour \<le> wake_hours wake_start + int 30"
    "(wake_hours wake_start + int 30) mod kWakesPerHour = 6"
    by (simp_all add: wake_start_def kWakes_values)
  have p: "wake_pass \<lparr>wake_5min = 0, wake_hours = 11, wake_days = 100\<rparr> 1
     = (\<lparr>wake_5min = 0, wake_hours = 0, wake_days = 101\<rparr>, [aggregatePer5Min, logPerHour])"
    by (simp add: wake_pass_def add_expirations_def to_int32_def kWakes_values trunc_mod_def
          trunc_div_def Let_def)
  show ?thesis
    using wake_loop_periods[of wake_start 30 0] r t p by simp
qed

section \<open>Properties of SupportManager\<close>

text \<open>
  C3. For every value of \<^verbatim>\<open>Mode\<close>, \<^verbatim>\<open>Boost\<close>, \<^verbatim>\<open>SessionHint\<close>, \<^verbatim>\<open>SessionMode\<close> and
  \<^verbatim>\<open>SessionTag\<close> and every interface version: when the earliest version the table
  assigns to the value exceeds the current version, the predicate of the value's type
  returns false, whatever the \<^verbatim>\<open>HintManager\<close> configuration answers; this includes
  \<^verbatim>\<open>Mode::LOW_POWER\<close>, whose special case comes after the version check.
\<close>

theorem unsupported_before_earliest_version:
  "(map_of kModeEarliestVersion m = Some e1 \<and> version < e1 \<longrightarrow> \<not> modeSupported hm version m)
   \<and> (map_of kBoostEarliestVersion b = Some e2 \<and> version < e2
        \<longrightarrow> \<not> boostSupported hm version b)
   \<and> (map_of kSessionHintEarliestVersion h = Some e3 \<and> version < e3
        \<longrightarrow> \<not> sessionHintSupported version h)
   \<and> (map_of kSessionModeEarliestVersion sm = Some e4 \<and> version < e4
        \<longrightarrow> \<not> sessionModeSupported version sm)
   \<and> (map_of kSessionTagEarliestVersion tg = Some e5 \<and> version < e5
        \<longrightarrow> \<not> sessionTagSupported version tg)"
  by (simp add: modeSupported_def boostSupported_def sessionHintSupported_def
        sessionModeSupported_def sessionTagSupported_def)

text \<open>
  At version 0 nothing is supported, \<^verbatim>\<open>LOW_POWER\<close> included, under a configuration that
  answers yes to every query.
\<close>

theorem unsupported_before_earliest_version_witness:
  "\<not> modeSupported \<lparr>IsHintSupported = (\<lambda>n. True), IsAdpfProfileSupported = (\<lambda>n. True)\<rparr> 0 LOW_POWER
   \<and> \<not> boostSupported \<lparr>IsHintSupported = (\<lambda>n. True), IsAdpfProfileSupported = (\<lambda>n. True)\<rparr> 0
         INTERACTION
   \<and> \<not> sessionHintSupported 0 CPU_LOAD_UP
   \<and> \<not> sessionModeSupported 0 AUTO_CPU
   \<and> \<not> sessionTagSupported 0 SYSUI"
proof -
  have "map_of kModeEarliestVersion LOW_POWER = Some 1 \<and> (0::int) < 1"
    "map_of kBoostEarliestVersion INTERACTION = Some 1 \<and> (0::int) < 1"
    "map_of kSessionHintEarliestVersion CPU_LOAD_UP = Some 4 \<and> (0::int) < 4"
    "map_of kSessionModeEarliestVersion AUTO_CPU = Some 6 \<and> (0::int) < 6"
    "map_of kSessionTagEarliestVersion SYSUI = Some 6 \<and> (0::int) < 6"
    by (simp_all add: kModeEarliestVersion_def kBoostEarliestVersion_def
          kSessionHintEarliestVersion_def kSessionModeEarliestVersion_def
          kSessionTagEarliestVersion_def)
  then show ?thesis
    using unsupported_before_earliest_version
      [of LOW_POWER 1 0 "\<lparr>IsHintSupported = (\<lambda>n. True), IsAdpfProfileSupported = (\<lambda>n. True)\<rparr>"
          INTERACTION 1 CPU_LOAD_UP 4 AUTO_CPU 6 SYSUI 6]
    by blast
qed

section \<open>Properties of BatteryEEPROMReporter::checkAndReport\<close>

lemma loop_effect_refl: "loop_effect env contents S st st"
  by (simp add: loop_effect_def)

lemma loop_effect_trans:
  assumes "loop_effect env contents S st st1" "loop_effect env contents T st1 st2"
  shows "loop_effect env contents (S \<union> T) st st2"
proof -
  from assms(1) obtain n1 where
    r1: "reported st1 = reported st @ n1" and
    a1: "\<forall>a \<in> set n1. slot a \<in> S \<and> \<not> decodes_to_sentinel env contents (slot a)
              \<and> \<not> (tempco a = 0xFFFF \<and> rcomp0 a = 0xFFFF)" and
    t1: "n1 = [] \<longrightarrow> report_time st1 = report_time st"
    unfolding loop_effect_def by blast
  from assms(2) obtain n2 where
    r2: "reported st2 = reported st1 @ n2" and
    a2: "\<forall>a \<in> set n2. slot a \<in> T \<and> \<not> decodes_to_sentinel env contents (slot a)
              \<and> \<not> (tempco a = 0xFFFF \<and> rcomp0 a = 0xFFFF)" and
    t2: "n2 = [] \<longrightarrow> report_time st2 = report_time st1"
    unfolding loop_effect_def by blast
  have "reported st2 = reported st @ (n1 @ n2)" using r1 r2 by simp
  moreover have "\<forall>a \<in> set (n1 @ n2). slot a \<in> S \<union> T
      \<and> \<not> decodes_to_sentinel env contents (slot a)
      \<and> \<not> (tempco a = 0xFFFF \<and> rcomp0 a = 0xFFFF)"
    using a1 a2 by auto
  moreover have "n1 @ n2 = [] \<longrightarrow> report_time st2 = report_time st"
    using t1 t2 by simp
  ultimately show ?thesis unfolding loop_effect_def by blast
qed

lemma sentinel_scanned:
  assumes "sscanf_history env (history_each contents i) = Some vals"
    "decodes_to_sentinel env contents i"
  shows "scanned_tempco vals t = 0xFFFF \<and> scanned_rcomp0 vals r = 0xFFFF"
  using assms by (auto simp: decodes_to_sentinel_def scanned_tempco_def scanned_rcomp0_def)

lemma report_scanned_effect:
  assumes "decodes_to_sentinel env contents i \<longrightarrow>
             scanned_tempco vals (raw_tempco st) = 0xFFFF
             \<and> scanned_rcomp0 vals (raw_rcomp0 st) = 0xFFFF"
  shows "loop_effect env contents {i} st (report_scanned env sp i vals st)"
proof -
  let ?t = "scanned_tempco vals (raw_tempco st)"
  let ?r = "scanned_rcomp0 vals (raw_rcomp0 st)"
  let ?tmp = "pack_data (scanned_data vals (stack_data env i))"
  show ?thesis
  proof (cases "(?t = 0xFFFF \<and> ?r = 0xFFFF) \<or> ?tmp \<le> 0")
    case True
    then have "reported (report_scanned env sp i vals st) = reported st"
      "report_time (report_scanned env sp i vals st) = report_time st"
      by (auto simp: report_scanned_def Let_def)
    then show ?thesis by (simp add: loop_effect_def)
  next
    case False
    then have "reported (report_scanned env sp i vals st) = reported st @
          [\<lparr>slot = i, cycle_cnt = history_cycle_cnt sp i, tempco = ?t, rcomp0 = ?r,
            packed = ?tmp\<rparr>]"
      by (auto simp: report_scanned_def Let_def)
    moreover have "\<not> decodes_to_sentinel env contents i" using False assms by blast
    ultimately show ?thesis using False by (simp add: loop_effect_def)
  qed
qed

lemma history_pass_effect:
  "loop_effect env contents {i} st (history_pass env sp contents i st)"
proof (cases "sscanf_history env (history_each contents i)")
  case None
  then have "\<not> decodes_to_sentinel env contents i" by (simp add: decodes_to_sentinel_def)
  then show ?thesis
    unfolding history_pass_def by (intro report_scanned_effect) simp
next
  case (Some vals)
  then show ?thesis
    unfolding history_pass_def using sentinel_scanned[OF Some]
    by (simp add: report_scanned_effect)
qed

lemma pipeline_pass_effect:
  "loop_effect env contents {i} st (pipeline_pass env contents i st)"
proof (cases "sscanf_history env (history_each contents i)")
  case None
  then show ?thesis by (simp add: pipeline_pass_def loop_effect_refl)
next
  case (Some vals)
  then show ?thesis
    using sentinel_scanned[OF Some]
    by (simp add: pipeline_pass_def loop_effect_refl report_scanned_effect)
qed

lemma history_loop_effect:
  "loop_effect env contents (set slots) st (history_loop env sp contents slots st)"
proof (induction slots arbitrary: st)
  case Nil
  show ?case by (simp add: loop_effect_refl)
next
  case (Cons i rest)
  show ?case
  proof (cases "i * LINESIZE > length contents")
    case True
    then show ?thesis by (simp add: loop_effect_refl)
  next
    case False
    from loop_effect_trans[OF history_pass_effect Cons.IH]
    have "loop_effect env contents ({i} \<union> set rest) st
            (history_loop env sp contents rest (history_pass env sp contents i st))" .
    then show ?thesis using False by simp
  qed
qed

lemma pipeline_loop_effect:
  "loop_effect env contents (set slots) st (pipeline_loop env contents slots st)"
proof (induction slots arbitrary: st)
  case Nil
  show ?case by (simp add: loop_effect_refl)
next
  case (Cons i rest)
  show ?case
  proof (cases "i * LINESIZE + LINESIZE > length contents")
    case True
    then show ?thesis by (simp add: loop_effect_refl)
  next
    case False
    from loop_effect_trans[OF pipeline_pass_effect Cons.IH]
    have "loop_effect env contents ({i} \<union> set rest) st
            (pipeline_loop env contents rest (pipeline_pass env contents i st))" .
    then show ?thesis using False by simp
  qed
qed

text \<open>What a whole call does, in the terms of the loop.\<close>

lemma checkAndReport_effect:
  "(\<forall>a \<in> set (snd (checkAndReport env n now rt)).
       (\<forall>contents. history_file env = Some contents
           \<longrightarrow> \<not> decodes_to_sentinel env contents (slot a))
       \<and> \<not> (tempco a = 0xFFFF \<and> rcomp0 a = 0xFFFF))
   \<and> (snd (checkAndReport env n now rt) = [] \<longrightarrow> fst (checkAndReport env n now rt) = rt)"
proof (cases "throttled now rt \<or> history_file env = None")
  case True
  then show ?thesis by (auto simp: checkAndReport_def)
next
  case False
  then obtain contents where c: "history_file env = Some contents" by auto
  let ?start = "\<lparr>raw_tempco = stack_tempco env, raw_rcomp0 = stack_rcomp0 env,
               report_time = rt, reported = []\<rparr>"
  let ?st = "history_loop env (sparse_index_count_of (int n) (cycle_count_file env))
               contents [0 ..< n] ?start"
  have r: "checkAndReport env n now rt = (report_time ?st, reported ?st)"
    using False c by (simp add: checkAndReport_def Let_def)
  have "loop_effect env contents (set [0 ..< n]) ?start ?st" by (rule history_loop_effect)
  then show ?thesis
    unfolding r using c by (auto simp: loop_effect_def)
qed

lemma checkAndReport_pipeline_effect:
  "(\<forall>a \<in> set (snd (checkAndReport_pipeline env now rt)).
       (\<forall>contents. history_file env = Some contents
           \<longrightarrow> \<not> decodes_to_sentinel env contents (slot a))
       \<and> \<not> (tempco a = 0xFFFF \<and> rcomp0 a = 0xFFFF))
   \<and> (snd (checkAndReport_pipeline env now rt) = []
        \<longrightarrow> fst (checkAndReport_pipeline env now rt) = rt)"
proof (cases "throttled now rt \<or> history_file env = None")
  case True
  then show ?thesis by (auto simp: checkAndReport_pipeline_def)
next
  case False
  then obtain contents where c: "history_file env = Some contents" by auto
  let ?start = "\<lparr>raw_tempco = stack_tempco env, raw_rcomp0 = stack_rcomp0 env,
               report_time = rt, reported = []\<rparr>"
  let ?st = "pipeline_loop env contents [0 ..< length contents div LINESIZE] ?start"
  have r: "checkAndReport_pipeline env now rt = (report_time ?st, reported ?st)"
    using False c by (simp add: checkAndReport_pipeline_def Let_def)
  have "loop_effect env contents (set [0 ..< length contents div LINESIZE]) ?start ?st"
    by (rule pipeline_loop_effect)
  then show ?thesis
    unfolding r using c by (auto simp: loop_effect_def)
qed

lemmas eeprom_example_defs =
  checkAndReport_def checkAndReport_pipeline_def throttled_def kSecondsPerMonth_def
  example_environment_def blank_environment_def example_history_def history_pass_def
  pipeline_pass_def report_scanned_def history_each_def LINESIZE_def sparse_index_count_of_def
  trunc_div_def trunc_mod_def scanned_tempco_def scanned_rcomp0_def scanned_data_def
  pack_data_def history_cycle_cnt_def Let_def upt_rec

text \<open>
  C7. In both versions of \<^verbatim>\<open>checkAndReport\<close>, a slot of the history file whose
  \<^verbatim>\<open>tempco\<close> and \<^verbatim>\<open>rcomp0\<close> fields both decode to \<open>0xFFFF\<close> has no atom among those the
  call reports (the pass ends at the sentinel test and the loop goes on with the next
  slot); no reported atom carries the sentinel pair.
\<close>

theorem sentinel_record_not_reported:
  "(history_file env = Some contents \<and> decodes_to_sentinel env contents i
      \<longrightarrow> i \<notin> slot ` set (snd (checkAndReport env n now rt))
          \<and> i \<notin> slot ` set (snd (checkAndReport_pipeline env now rt)))
   \<and> (\<forall>a \<in> set (snd (checkAndReport env n now rt))
              \<union> set (snd (checkAndReport_pipeline env now rt)).
         \<not> (tempco a = 0xFFFF \<and> rcomp0 a = 0xFFFF))"
  using checkAndReport_effect[of env n now rt] checkAndReport_pipeline_effect[of env now rt]
  by blast

text \<open>
  In the example file the first slot holds the sentinel pair and the second does not:
  both versions report slot 1 only.
\<close>

theorem sentinel_record_not_reported_witness:
  "decodes_to_sentinel example_environment example_history 0
   \<and> map slot (snd (checkAndReport example_environment 2 100 0)) = [1]
   \<and> map slot (snd (checkAndReport_pipeline example_environment 100 0)) = [1]"
proof -
  have h: "history_file example_environment = Some example_history"
    by (simp add: example_environment_def)
  have d: "decodes_to_sentinel example_environment example_history 0"
    by (simp add: decodes_to_sentinel_def example_environment_def example_history_def
          history_each_def LINESIZE_def)
  have a: "map slot (snd (checkAndReport example_environment 2 100 0)) = [1]"
    by (simp add: eeprom_example_defs)
  have b: "map slot (snd (checkAndReport_pipeline example_environment 100 0)) = [1]"
    by (simp add: eeprom_example_defs)
  from sentinel_record_not_reported[of example_environment example_history 0 2 100 0] h d
  have "0 \<notin> slot ` set (snd (checkAndReport example_environment 2 100 0))" by blast
  then show ?thesis using d a b by simp
qed

text \<open>
  C10. \<^verbatim>\<open>report_time_\<close> is assigned only in a pass that reports a record: when a call
  reports no atom (the file is read and every slot is skipped, by the sentinel pair or a
  packed value that is not positive), \<^verbatim>\<open>report_time_\<close> is what it was, and the throttle
  test of the next call decides as if this call had not happened; a call that changes
  \<^verbatim>\<open>report_time_\<close> has reported an atom. This holds for both versions.
\<close>

theorem report_time_kept_without_report:
  "(snd (checkAndReport env n now rt) = []
      \<longrightarrow> fst (checkAndReport env n now rt) = rt
          \<and> throttled later (fst (checkAndReport env n now rt)) = throttled later rt)
   \<and> (fst (checkAndReport env n now rt) \<noteq> rt \<longrightarrow> snd (checkAndReport env n now rt) \<noteq> [])
   \<and> (snd (checkAndReport_pipeline env now rt) = []
      \<longrightarrow> fst (checkAndReport_pipeline env now rt) = rt
          \<and> throttled later (fst (checkAndReport_pipeline env now rt)) = throttled later rt)
   \<and> (fst (checkAndReport_pipeline env now rt) \<noteq> rt
        \<longrightarrow> snd (checkAndReport_pipeline env now rt) \<noteq> [])"
  using checkAndReport_effect[of env n now rt] checkAndReport_pipeline_effect[of env now rt]
  by auto

text \<open>
  With the sentinel pair in every slot a first call reports nothing and leaves
  \<^verbatim>\<open>report_time_\<close> at 0, so a call one second later is not throttled; with the example
  file the call reports slot 1 and takes the clock of that report.
\<close>

theorem report_time_kept_without_report_witness:
  "snd (checkAndReport blank_environment 2 100 0) = []
   \<and> fst (checkAndReport blank_environment 2 100 0) = 0
   \<and> \<not> throttled 101 (fst (checkAndReport blank_environment 2 100 0))
   \<and> snd (checkAndReport_pipeline blank_environment 100 0) = []
   \<and> fst (checkAndReport_pipeline blank_environment 100 0) = 0
   \<and> fst (checkAndReport example_environment 2 100 0) = 5001
   \<and> throttled 101 (fst (checkAndReport example_environment 2 100 0))"
proof -
  have a: "snd (checkAndReport blank_environment 2 100 0) = []"
    by (simp add: eeprom_example_defs)
  have b: "snd (checkAndReport_pipeline blank_environment 100 0) = []"
    by (simp add: eeprom_example_defs)
  have c: "fst (checkAndReport example_environment 2 100 0) = 5001"
    by (simp add: eeprom_example_defs)
  have t: "\<not> throttled 101 0" "throttled 101 5001"
    by (simp_all add: throttled_def kSecondsPerMonth_def)
  from report_time_kept_without_report[of blank_environment 2 100 0 101] a b
  have "fst (checkAndReport blank_environment 2 100 0) = 0"
    "fst (checkAndReport_pipeline blank_environment 100 0) = 0" by blast+
  then show ?thesis using a b c t by simp
qed

section \<open>Properties of ChannelManager\<close>

subsection \<open>Slots of a group\<close>

lemma firstFree_free: "firstFree cs < length cs \<Longrightarrow> cs ! firstFree cs = None"
  by (induction cs) (auto split: if_splits)

lemma firstFree_room:
  "length (filter (\<lambda>c. c \<noteq> None) cs) < length cs \<Longrightarrow> firstFree cs < length cs"
  by (induction cs) (auto split: if_splits)

lemma occupied_take_slot:
  assumes "i < length cs" "cs ! i = None"
  shows "length (filter (\<lambda>c. c \<noteq> None) (cs[i := Some x]))
           = Suc (length (filter (\<lambda>c. c \<noteq> None) cs))"
proof -
  have a: "cs = take i cs @ cs ! i # drop (Suc i) cs"
    using assms(1) by (simp add: id_take_nth_drop)
  have b: "cs[i := Some x] = take i cs @ Some x # drop (Suc i) cs"
    using assms(1) by (simp add: upd_conv_take_nth_drop)
  have "length (filter (\<lambda>c. c \<noteq> None) cs)
          = length (filter (\<lambda>c. c \<noteq> None) (take i cs))
            + length (filter (\<lambda>c. c \<noteq> None) (drop (Suc i) cs))"
    by (subst a) (simp add: assms(2))
  then show ?thesis by (simp add: b)
qed

lemma occupied_free_slot:
  assumes "i < length cs" "cs ! i \<noteq> None"
  shows "Suc (length (filter (\<lambda>c. c \<noteq> None) (cs[i := None])))
           = length (filter (\<lambda>c. c \<noteq> None) cs)"
proof -
  have a: "cs = take i cs @ cs ! i # drop (Suc i) cs"
    using assms(1) by (simp add: id_take_nth_drop)
  have b: "cs[i := None] = take i cs @ None # drop (Suc i) cs"
    using assms(1) by (simp add: upd_conv_take_nth_drop)
  have "length (filter (\<lambda>c. c \<noteq> None) cs)
          = Suc (length (filter (\<lambda>c. c \<noteq> None) (take i cs))
            + length (filter (\<lambda>c. c \<noteq> None) (drop (Suc i) cs)))"
    by (subst a) (simp add: assms(2))
  then show ?thesis by (simp add: b)
qed

lemma occupied_none:
  "length (filter (\<lambda>c. c \<noteq> None) cs) = 0 \<Longrightarrow> i < length cs \<Longrightarrow> cs ! i = None"
  by (metis (mono_tags, lifting) filter_False length_0_conv nth_mem filter_empty_conv)

lemma occupied_le: "occupied g \<le> length (mChannels g)"
  by (simp add: occupied_def)

lemma createChannel_ok:
  assumes "groupOk (k, g)" "mLiveChannels g < int kMaxChannels"
  shows "\<exists>s. s < kMaxChannels \<and> mChannels g ! s = None
           \<and> createChannel g tgid uid =
               Some (\<lparr>mTgid = tgid, mUid = uid, mId = (k, int s)\<rparr>,
                     g\<lparr>mLiveChannels := mLiveChannels g + 1,
                       mChannels := (mChannels g)[s := Some \<lparr>mTgid = tgid, mUid = uid, mId = (k, int s)\<rparr>]\<rparr>)
           \<and> groupOk (k, g\<lparr>mLiveChannels := mLiveChannels g + 1,
                       mChannels := (mChannels g)[s := Some \<lparr>mTgid = tgid, mUid = uid, mId = (k, int s)\<rparr>]\<rparr>)"
proof -
  let ?s = "firstFree (mChannels g)"
  have len: "length (mChannels g) = kMaxChannels" and gid: "mGroupId g = k"
    and live: "mLiveChannels g = int (occupied g)" and nonneg: "0 \<le> k"
    and ids: "\<And>c. Some c \<in> set (mChannels g) \<Longrightarrow> fst (mId c) = k"
    using assms(1) by (simp_all add: groupOk_def)
  have "occupied g < length (mChannels g)" using assms(2) live len by simp
  then have room: "?s < length (mChannels g)"
    unfolding occupied_def by (rule firstFree_room)
  have free: "mChannels g ! ?s = None" using room by (rule firstFree_free)
  have tk: "take kMaxChannels (mChannels g) = mChannels g" using len by simp
  have c: "createChannel g tgid uid =
               Some (\<lparr>mTgid = tgid, mUid = uid, mId = (k, int ?s)\<rparr>,
                     g\<lparr>mLiveChannels := mLiveChannels g + 1,
                       mChannels := (mChannels g)[?s := Some \<lparr>mTgid = tgid, mUid = uid, mId = (k, int ?s)\<rparr>]\<rparr>)"
    using room len by (simp add: createChannel_def tk Let_def gid)
  have "occupied (g\<lparr>mLiveChannels := mLiveChannels g + 1,
                       mChannels := (mChannels g)[?s := Some \<lparr>mTgid = tgid, mUid = uid, mId = (k, int ?s)\<rparr>]\<rparr>)
          = Suc (occupied g)"
    unfolding occupied_def using occupied_take_slot[OF room free] by simp
  moreover have "fst (mId c) = k"
    if "Some c \<in> set ((mChannels g)[?s := Some \<lparr>mTgid = tgid, mUid = uid, mId = (k, int ?s)\<rparr>])" for c
  proof -
    have "Some c = Some \<lparr>mTgid = tgid, mUid = uid, mId = (k, int ?s)\<rparr> \<or> Some c \<in> set (mChannels g)"
      using that set_update_subset_insert by fastforce
    then show ?thesis using ids by auto
  qed
  ultimately have "groupOk (k, g\<lparr>mLiveChannels := mLiveChannels g + 1,
                       mChannels := (mChannels g)[?s := Some \<lparr>mTgid = tgid, mUid = uid, mId = (k, int ?s)\<rparr>]\<rparr>)"
    using len gid live nonneg by (simp add: groupOk_def)
  then show ?thesis using room len free c by auto
qed

lemma removeChannel_ok:
  assumes "groupOk (k, g)" "0 \<le> off" "off < int kMaxChannels" "mChannels g ! nat off \<noteq> None"
  shows "removeChannel g off =
           Some (True, g\<lparr>mChannels := (mChannels g)[nat off := None],
                          mLiveChannels := mLiveChannels g - 1\<rparr>)
         \<and> groupOk (k, g\<lparr>mChannels := (mChannels g)[nat off := None],
                          mLiveChannels := mLiveChannels g - 1\<rparr>)"
proof -
  have len: "length (mChannels g) = kMaxChannels" and gid: "mGroupId g = k"
    and live: "mLiveChannels g = int (occupied g)" and nonneg: "0 \<le> k"
    and ids: "\<And>c. Some c \<in> set (mChannels g) \<Longrightarrow> fst (mId c) = k"
    using assms(1) by (simp_all add: groupOk_def)
  have r: "nat off < length (mChannels g)" using assms(2,3) len by simp
  have "channel_at g off = Some (mChannels g ! nat off)"
    using assms(2,3) len by (simp add: channel_at_def)
  then have rm: "removeChannel g off =
           Some (True, g\<lparr>mChannels := (mChannels g)[nat off := None],
                          mLiveChannels := mLiveChannels g - 1\<rparr>)"
    using assms(4) by (auto simp: removeChannel_def)
  have "Suc (occupied (g\<lparr>mChannels := (mChannels g)[nat off := None],
                          mLiveChannels := mLiveChannels g - 1\<rparr>)) = occupied g"
    unfolding occupied_def using occupied_free_slot[OF r assms(4)] by simp
  moreover have "fst (mId c) = k" if "Some c \<in> set ((mChannels g)[nat off := None])" for c
  proof -
    have "Some c = None \<or> Some c \<in> set (mChannels g)"
      using that set_update_subset_insert by fastforce
    then show ?thesis using ids by auto
  qed
  ultimately have "groupOk (k, g\<lparr>mChannels := (mChannels g)[nat off := None],
                          mLiveChannels := mLiveChannels g - 1\<rparr>)"
    using len gid live nonneg by (simp add: groupOk_def)
  then show ?thesis using rm by simp
qed

lemma getChannel_ok:
  assumes "groupOk (k, g)" "0 \<le> off" "off < int kMaxChannels" "mChannels g ! nat off \<noteq> None"
  shows "\<exists>c. getChannel g off = Some c \<and> fst (mId c) = k"
proof -
  have len: "length (mChannels g) = kMaxChannels"
    and ids: "\<And>c. Some c \<in> set (mChannels g) \<Longrightarrow> fst (mId c) = k"
    using assms(1) by (simp_all add: groupOk_def)
  from assms(4) obtain c where c: "mChannels g ! nat off = Some c" by auto
  have "nat off < length (mChannels g)" using assms(2,3) len by simp
  then have "Some c \<in> set (mChannels g)" using c by (metis nth_mem)
  then have i: "fst (mId c) = k" by (rule ids)
  have "channel_at g off = Some (mChannels g ! nat off)"
    using assms(2,3) len by (simp add: channel_at_def)
  then have "getChannel g off = Some c" using c by (simp add: getChannel_def)
  then show ?thesis using i by blast
qed

subsection \<open>The list of groups\<close>

lemma sorted_keys_distinct: "sorted_wrt (<) (map fst gs) \<Longrightarrow> distinct (map fst (gs :: (int \<times> 'a) list))"
  using strict_sorted_iff by (metis distinct_map sorted_wrt_map strict_sorted_iff)

lemma keys_setGroup: "map fst (setGroup k g gs) = map fst gs"
  by (induction gs) (auto simp: setGroup_def)

lemma map_of_setGroup:
  "map_of (setGroup k g gs) =
     (if k \<in> fst ` set gs then (map_of gs)(k \<mapsto> g) else map_of gs)"
  by (induction gs) (auto simp: setGroup_def fun_eq_iff)

lemma set_setGroup: "p \<in> set (setGroup k g gs) \<Longrightarrow> p = (k, g) \<or> (p \<in> set gs \<and> fst p \<noteq> k)"
  by (auto simp: setGroup_def split: if_splits)

lemma setGroup_absent: "k \<notin> fst ` set gs \<Longrightarrow> setGroup k g gs = gs"
  by (induction gs) (auto simp: setGroup_def)

lemma eraseGroup_absent: "k \<notin> fst ` set gs \<Longrightarrow> eraseGroup k gs = gs"
  by (induction gs) (auto simp: eraseGroup_def)

lemma sum_setGroup:
  assumes "distinct (map fst gs)" "map_of gs k = Some g0"
  shows "sum_list (map (\<lambda>p. mLiveChannels (snd p)) (setGroup k g gs))
           = sum_list (map (\<lambda>p. mLiveChannels (snd p)) gs) - mLiveChannels g0 + mLiveChannels g"
  using assms
proof (induction gs)
  case Nil
  then show ?case by simp
next
  case (Cons p gs)
  show ?case
  proof (cases "fst p = k")
    case True
    then have "k \<notin> fst ` set gs" using Cons.prems(1) by auto
    then have same: "setGroup k g gs = gs"
      by (rule setGroup_absent)
    have "snd p = g0" using True Cons.prems(2) by (cases p) auto
    then show ?thesis using True same by (simp add: setGroup_def)
  next
    case False
    then have "map_of gs k = Some g0" using Cons.prems(2) by (cases p) auto
    with Cons.IH Cons.prems(1) have
      "sum_list (map (\<lambda>p. mLiveChannels (snd p)) (setGroup k g gs))
         = sum_list (map (\<lambda>p. mLiveChannels (snd p)) gs) - mLiveChannels g0 + mLiveChannels g"
      by simp
    then show ?thesis using False by (simp add: setGroup_def)
  qed
qed

lemma keys_eraseGroup: "map fst (eraseGroup k gs) = filter (\<lambda>x. x \<noteq> k) (map fst gs)"
  by (induction gs) (auto simp: eraseGroup_def)

lemma map_of_eraseGroup: "map_of (eraseGroup k gs) = (map_of gs)(k := None)"
  by (induction gs) (auto simp: eraseGroup_def fun_eq_iff)

lemma sum_eraseGroup:
  assumes "distinct (map fst gs)" "map_of gs k = Some g0"
  shows "sum_list (map (\<lambda>p. mLiveChannels (snd p)) (eraseGroup k gs))
           = sum_list (map (\<lambda>p. mLiveChannels (snd p)) gs) - mLiveChannels g0"
  using assms
proof (induction gs)
  case Nil
  then show ?case by simp
next
  case (Cons p gs)
  show ?case
  proof (cases "fst p = k")
    case True
    then have "k \<notin> fst ` set gs" using Cons.prems(1) by auto
    then have same: "eraseGroup k gs = gs"
      by (rule eraseGroup_absent)
    have "snd p = g0" using True Cons.prems(2) by (cases p) auto
    then show ?thesis using True same by (simp add: eraseGroup_def)
  next
    case False
    then have "map_of gs k = Some g0" using Cons.prems(2) by (cases p) auto
    with Cons.IH Cons.prems(1) have
      "sum_list (map (\<lambda>p. mLiveChannels (snd p)) (eraseGroup k gs))
         = sum_list (map (\<lambda>p. mLiveChannels (snd p)) gs) - mLiveChannels g0"
      by simp
    then show ?thesis using False by (simp add: eraseGroup_def)
  qed
qed

lemma last_key_greatest:
  "sorted_wrt (<) (map fst gs) \<Longrightarrow> p \<in> set gs \<Longrightarrow> fst p \<le> fst (last (gs :: (int \<times> 'a) list))"
proof (induction gs)
  case Nil
  then show ?case by simp
next
  case (Cons q gs)
  show ?case
  proof (cases "gs = []")
    case True
    then show ?thesis using Cons.prems by simp
  next
    case False
    then have l: "last gs \<in> set gs" by simp
    show ?thesis
    proof (cases "p = q")
      case True
      then have "fst p < fst (last gs)" using Cons.prems(1) l by auto
      then show ?thesis using False by simp
    next
      case False2: False
      then have "p \<in> set gs" using Cons.prems(2) by simp
      then show ?thesis using Cons.IH Cons.prems(1) False by simp
    qed
  qed
qed

subsection \<open>The invariant is kept\<close>

lemma managerOk_new: "managerOk ChannelManager_new"
  by (simp add: managerOk_def ChannelManager_new_def getChannelCount_def)

lemma managerOk_sorted: "managerOk m \<Longrightarrow> sorted_wrt (<) (map fst (mChannelGroups m))"
  by (simp add: managerOk_def)

lemma managerOk_distinct: "managerOk m \<Longrightarrow> distinct (map fst (mChannelGroups m))"
  by (simp add: managerOk_def sorted_keys_distinct)

lemma managerOk_group: "managerOk m \<Longrightarrow> map_of (mChannelGroups m) k = Some g \<Longrightarrow> groupOk (k, g)"
  unfolding managerOk_def using map_of_SomeD by fastforce

lemma managerOk_entry:
  "managerOk m \<Longrightarrow> mChannelMap m key = Some v \<Longrightarrow>
     \<exists>g. map_of (mChannelGroups m) (fst v) = Some g \<and> 0 \<le> snd v
          \<and> snd v < int kMaxChannels \<and> mChannels g ! nat (snd v) \<noteq> None"
  unfolding managerOk_def by blast

lemma managerOk_inj:
  "managerOk m \<Longrightarrow> mChannelMap m a = Some v \<Longrightarrow> mChannelMap m b = Some v \<Longrightarrow> a = b"
  unfolding managerOk_def inj_on_def by (metis domI)

lemma managerOk_count:
  "managerOk m \<Longrightarrow> finite (dom (mChannelMap m))
     \<and> getChannelCount m = int (card (dom (mChannelMap m)))"
  by (simp add: managerOk_def)

lemma managerOkI:
  assumes "sorted_wrt (<) (map fst (mChannelGroups m))"
    "\<And>p. p \<in> set (mChannelGroups m) \<Longrightarrow> groupOk p"
    "\<And>key v. mChannelMap m key = Some v \<Longrightarrow>
        \<exists>g. map_of (mChannelGroups m) (fst v) = Some g \<and> 0 \<le> snd v
             \<and> snd v < int kMaxChannels \<and> mChannels g ! nat (snd v) \<noteq> None"
    "\<And>a b v. mChannelMap m a = Some v \<Longrightarrow> mChannelMap m b = Some v \<Longrightarrow> a = b"
    "finite (dom (mChannelMap m))"
    "getChannelCount m = int (card (dom (mChannelMap m)))"
  shows "managerOk m"
proof -
  have "inj_on (mChannelMap m) (dom (mChannelMap m))"
    unfolding inj_on_def using assms(4) by (metis domD)
  then show ?thesis
    unfolding managerOk_def using assms(1,2,3,5,6) by blast
qed

lemma sorted_eraseGroup:
  "sorted_wrt (<) (map fst gs) \<Longrightarrow> sorted_wrt (<) (map fst (eraseGroup k gs))"
  by (simp only: keys_eraseGroup sorted_wrt_filter)

lemma sorted_setGroup:
  "sorted_wrt (<) (map fst gs) \<Longrightarrow> sorted_wrt (<) (map fst (setGroup k g gs))"
  by (simp only: keys_setGroup)

lemma closeChannel_absent:
  "mChannelMap m (tgid, uid) = None \<Longrightarrow> closeChannel m tgid uid = Some (False, m)"
  by (simp add: closeChannel_def)

lemma closeChannel_present:
  assumes ok: "managerOk m" and v: "mChannelMap m (tgid, uid) = Some v"
  shows "\<exists>m'. closeChannel m tgid uid = Some (True, m') \<and> managerOk m'
           \<and> mChannelMap m' = (mChannelMap m)((tgid, uid) := None)"
proof -
  from managerOk_entry[OF ok v] obtain g where
    g: "map_of (mChannelGroups m) (fst v) = Some g" and lo: "0 \<le> snd v"
    and hi: "snd v < int kMaxChannels" and occ: "mChannels g ! nat (snd v) \<noteq> None"
    by blast
  have gok: "groupOk (fst v, g)" using ok g by (rule managerOk_group)
  define g' where "g' = g\<lparr>mChannels := (mChannels g)[nat (snd v) := None],
                            mLiveChannels := mLiveChannels g - 1\<rparr>"
  have rm: "removeChannel g (snd v) = Some (True, g')" and g'ok: "groupOk (fst v, g')"
    using removeChannel_ok[OF gok lo hi occ] by (simp_all add: g'_def)
  have live': "mLiveChannels g' = mLiveChannels g - 1" by (simp add: g'_def)
  define groups' where "groups' =
     (if mLiveChannels g' = 0 then eraseGroup (fst v) (mChannelGroups m)
      else setGroup (fst v) g' (mChannelGroups m))"
  define m' where "m' = m\<lparr>mChannelGroups := groups',
                            mChannelMap := (mChannelMap m)((tgid, uid) := None)\<rparr>"
  have res: "closeChannel m tgid uid = Some (True, m')"
    by (simp add: closeChannel_def v g rm m'_def groups'_def)
  have dist: "distinct (map fst (mChannelGroups m))" using ok by (rule managerOk_distinct)
  have kin: "fst v \<in> fst ` set (mChannelGroups m)"
    using g by (metis map_of_SomeD image_eqI fst_conv)
  have mo: "map_of groups' =
              (if mLiveChannels g' = 0 then (map_of (mChannelGroups m))(fst v := None)
               else (map_of (mChannelGroups m))(fst v \<mapsto> g'))"
    using kin by (simp add: groups'_def map_of_eraseGroup map_of_setGroup)
  have srt: "sorted_wrt (<) (map fst groups')"
  proof (cases "mLiveChannels g' = 0")
    case True
    then have "groups' = eraseGroup (fst v) (mChannelGroups m)" by (simp add: groups'_def)
    then show ?thesis using sorted_eraseGroup[OF managerOk_sorted[OF ok]] by (simp only:)
  next
    case False
    then have "groups' = setGroup (fst v) g' (mChannelGroups m)" by (simp add: groups'_def)
    then show ?thesis using sorted_setGroup[OF managerOk_sorted[OF ok]] by (simp only:)
  qed
  have grp: "groupOk p" if "p \<in> set groups'" for p
  proof -
    have "p = (fst v, g') \<or> p \<in> set (mChannelGroups m)"
      using that set_setGroup[of p "fst v" g' "mChannelGroups m"]
      by (auto simp: groups'_def eraseGroup_def split: if_splits)
    then show ?thesis using g'ok ok by (auto simp: managerOk_def)
  qed
  have ent: "\<exists>h. map_of groups' (fst w) = Some h \<and> 0 \<le> snd w
             \<and> snd w < int kMaxChannels \<and> mChannels h ! nat (snd w) \<noteq> None"
    if w: "((mChannelMap m)((tgid, uid) := None)) key = Some w" for key w
  proof -
    have kne: "key \<noteq> (tgid, uid)" and old: "mChannelMap m key = Some w"
      using w by (auto split: if_splits)
    from managerOk_entry[OF ok old] obtain h where
      h: "map_of (mChannelGroups m) (fst w) = Some h" and wlo: "0 \<le> snd w"
      and whi: "snd w < int kMaxChannels" and wocc: "mChannels h ! nat (snd w) \<noteq> None"
      by blast
    have wv: "w \<noteq> v" using managerOk_inj[OF ok old] v kne by blast
    show ?thesis
    proof (cases "fst w = fst v")
      case False
      then have "map_of groups' (fst w) = Some h" using h by (simp add: mo)
      then show ?thesis using wlo whi wocc by blast
    next
      case True
      then have hg: "h = g" using h g by simp
      have sne: "snd w \<noteq> snd v" using wv True by (simp add: prod_eq_iff)
      then have nne: "nat (snd w) \<noteq> nat (snd v)" using wlo lo by simp
      have len: "length (mChannels g) = kMaxChannels" using gok by (simp add: groupOk_def)
      have still: "mChannels g' ! nat (snd w) \<noteq> None"
        using wocc hg nne by (simp add: g'_def)
      have "occupied g' \<noteq> 0"
      proof
        assume "occupied g' = 0"
        then have "mChannels g' ! nat (snd w) = None"
          unfolding occupied_def using whi wlo len
          by (intro occupied_none) (simp_all add: g'_def)
        then show False using still by simp
      qed
      then have "mLiveChannels g' \<noteq> 0" using g'ok by (simp add: groupOk_def)
      then have "map_of groups' (fst w) = Some g'" using True by (simp add: mo)
      then show ?thesis using wlo whi still by blast
    qed
  qed
  have inj: "a = b"
    if "((mChannelMap m)((tgid, uid) := None)) a = Some w"
       "((mChannelMap m)((tgid, uid) := None)) b = Some w" for a b w
    using that managerOk_inj[OF ok, of a w b] by (auto split: if_splits)
  have fin: "finite (dom (mChannelMap m))" and cnt: "getChannelCount m = int (card (dom (mChannelMap m)))"
    using managerOk_count[OF ok] by simp_all
  have kdom: "(tgid, uid) \<in> dom (mChannelMap m)" using v by auto
  have card': "int (card (dom ((mChannelMap m)((tgid, uid) := None)))) = int (card (dom (mChannelMap m))) - 1"
  proof -
    have "card (dom (mChannelMap m)) > 0" using fin kdom by (auto simp: card_gt_0_iff)
    moreover have "dom ((mChannelMap m)((tgid, uid) := None)) = dom (mChannelMap m) - {(tgid, uid)}"
      by auto
    ultimately show ?thesis using fin kdom by (simp add: card_Diff_singleton)
  qed
  have g1: "mLiveChannels g = 1" if "mLiveChannels g' = 0" using that live' by simp
  have sum': "getChannelCount m' = getChannelCount m - 1"
  proof (cases "mLiveChannels g' = 0")
    case True
    then show ?thesis
      using sum_eraseGroup[OF dist g] g1
      by (simp add: getChannelCount_def m'_def groups'_def)
  next
    case False
    then show ?thesis
      using sum_setGroup[OF dist g, of g'] live'
      by (simp add: getChannelCount_def m'_def groups'_def)
  qed
  have mp: "mChannelMap m' = (mChannelMap m)((tgid, uid) := None)" by (simp add: m'_def)
  have gp: "mChannelGroups m' = groups'" by (simp add: m'_def)
  have mok: "managerOk m'"
  proof (rule managerOkI)
    show "sorted_wrt (<) (map fst (mChannelGroups m'))" unfolding gp by (rule srt)
    show "\<And>p. p \<in> set (mChannelGroups m') \<Longrightarrow> groupOk p" unfolding gp by (rule grp)
    show "\<And>key w. mChannelMap m' key = Some w \<Longrightarrow>
        \<exists>h. map_of (mChannelGroups m') (fst w) = Some h \<and> 0 \<le> snd w
             \<and> snd w < int kMaxChannels \<and> mChannels h ! nat (snd w) \<noteq> None"
      unfolding gp mp by (rule ent)
    show "\<And>a b w. mChannelMap m' a = Some w \<Longrightarrow> mChannelMap m' b = Some w \<Longrightarrow> a = b"
      unfolding mp by (rule inj)
    show "finite (dom (mChannelMap m'))" unfolding mp using fin by simp
    show "getChannelCount m' = int (card (dom (mChannelMap m')))"
      unfolding mp using sum' cnt card' by simp
  qed
  from res mok mp show ?thesis by blast
qed

lemma groupOk_new: "0 \<le> gid \<Longrightarrow> groupOk (gid, ChannelGroup_new gid)"
  by (simp add: groupOk_def ChannelGroup_new_def occupied_def)

lemma fst_last: "gs \<noteq> [] \<Longrightarrow> fst (last gs) = last (map fst gs)"
  by (simp add: last_map)

lemma groupWithRoom_found:
  assumes "find (\<lambda>p. mLiveChannels (snd p) < int kMaxChannels) gs = Some p"
    "\<And>q. q \<in> set gs \<Longrightarrow> 0 \<le> fst q"
  shows "groupWithRoom gs = fst p" "groupWithRoom gs \<noteq> - 1" "p \<in> set gs"
    "mLiveChannels (snd p) < int kMaxChannels"
proof -
  from assms(1) show p: "p \<in> set gs" and "mLiveChannels (snd p) < int kMaxChannels"
    by (auto simp: find_Some_iff)
  show e: "groupWithRoom gs = fst p" using assms(1) by (simp add: groupWithRoom_def)
  show "groupWithRoom gs \<noteq> - 1" using assms(2)[OF p] e by simp
qed

lemma groupWithRoom_none:
  assumes "find (\<lambda>p. mLiveChannels (snd p) < int kMaxChannels) gs = None"
  shows "groupWithRoom gs = - 1" "\<And>q. q \<in> set gs \<Longrightarrow> \<not> mLiveChannels (snd q) < int kMaxChannels"
proof -
  show "groupWithRoom gs = - 1" using assms by (simp add: groupWithRoom_def)
  show "\<And>q. q \<in> set gs \<Longrightarrow> \<not> mLiveChannels (snd q) < int kMaxChannels"
    using assms by (auto simp: find_None_iff)
qed

text \<open>A new group under an id above the ids present keeps the invariant.\<close>

lemma managerOk_emplace:
  assumes ok: "managerOk m"
    and gid: "gid = (if mChannelGroups m = [] then 0 else fst (last (mChannelGroups m)) + 1)"
  shows "managerOk (m\<lparr>mChannelGroups := emplaceGroup gid (mChannelGroups m)\<rparr>)"
    "map_of (emplaceGroup gid (mChannelGroups m)) gid = Some (ChannelGroup_new gid)"
    "emplaceGroup gid (mChannelGroups m) = mChannelGroups m @ [(gid, ChannelGroup_new gid)]"
proof -
  let ?gs = "mChannelGroups m"
  have srt: "sorted_wrt (<) (map fst ?gs)" using ok by (rule managerOk_sorted)
  have above: "fst q < gid" if "q \<in> set ?gs" for q
  proof -
    have ne: "?gs \<noteq> []" using that by auto
    have "fst q \<le> fst (last ?gs)" using srt that by (rule last_key_greatest)
    then show ?thesis using gid ne by simp
  qed
  have notin: "gid \<notin> fst ` set ?gs" using above by fastforce
  show em: "emplaceGroup gid ?gs = ?gs @ [(gid, ChannelGroup_new gid)]"
    using notin by (simp add: emplaceGroup_def)
  have none: "map_of ?gs gid = None" using notin by (simp add: map_of_eq_None_iff)
  show mo: "map_of (emplaceGroup gid ?gs) gid = Some (ChannelGroup_new gid)"
    unfolding em using none by (simp add: map_add_def)
  have keep: "map_of (?gs @ [(gid, ChannelGroup_new gid)]) k = Some h"
    if "map_of ?gs k = Some h" for k h
    using that by (simp add: map_add_def)
  have nonneg: "0 \<le> gid"
  proof (cases "?gs = []")
    case True
    then show ?thesis using gid by simp
  next
    case False
    then have l: "last ?gs \<in> set ?gs" by simp
    have "groupOk (last ?gs)" using ok l by (simp add: managerOk_def)
    then have "0 \<le> fst (last ?gs)" by (simp add: groupOk_def)
    then show ?thesis using gid False by simp
  qed
  have srt': "sorted_wrt (<) (map fst (?gs @ [(gid, ChannelGroup_new gid)]))"
    using srt above by (simp add: sorted_wrt_append)
  have live0: "mLiveChannels (ChannelGroup_new gid) = 0" by (simp add: ChannelGroup_new_def)
  show "managerOk (m\<lparr>mChannelGroups := emplaceGroup gid ?gs\<rparr>)"
  proof (rule managerOkI)
    show "sorted_wrt (<) (map fst (mChannelGroups (m\<lparr>mChannelGroups := emplaceGroup gid ?gs\<rparr>)))"
      using srt' by (simp add: em)
    show "groupOk p" if "p \<in> set (mChannelGroups (m\<lparr>mChannelGroups := emplaceGroup gid ?gs\<rparr>))" for p
    proof -
      have "p = (gid, ChannelGroup_new gid) \<or> p \<in> set ?gs" using that by (auto simp: em)
      then show ?thesis using groupOk_new[OF nonneg] ok by (auto simp: managerOk_def)
    qed
    show "\<exists>g. map_of (mChannelGroups (m\<lparr>mChannelGroups := emplaceGroup gid ?gs\<rparr>)) (fst v) = Some g
             \<and> 0 \<le> snd v \<and> snd v < int kMaxChannels \<and> mChannels g ! nat (snd v) \<noteq> None"
      if "mChannelMap (m\<lparr>mChannelGroups := emplaceGroup gid ?gs\<rparr>) key = Some v" for key v
    proof -
      have "mChannelMap m key = Some v" using that by simp
      from managerOk_entry[OF ok this] obtain g where
        "map_of ?gs (fst v) = Some g" "0 \<le> snd v" "snd v < int kMaxChannels"
        "mChannels g ! nat (snd v) \<noteq> None" by blast
      then show ?thesis using keep by (simp add: em)
    qed
    show "a = b"
      if "mChannelMap (m\<lparr>mChannelGroups := emplaceGroup gid ?gs\<rparr>) a = Some v"
         "mChannelMap (m\<lparr>mChannelGroups := emplaceGroup gid ?gs\<rparr>) b = Some v" for a b v
      using that managerOk_inj[OF ok, of a v b] by simp
    show "finite (dom (mChannelMap (m\<lparr>mChannelGroups := emplaceGroup gid ?gs\<rparr>)))"
      using managerOk_count[OF ok] by simp
    show "getChannelCount (m\<lparr>mChannelGroups := emplaceGroup gid ?gs\<rparr>)
            = int (card (dom (mChannelMap (m\<lparr>mChannelGroups := emplaceGroup gid ?gs\<rparr>))))"
      using managerOk_count[OF ok] live0 by (simp add: getChannelCount_def em)
  qed
qed

lemma taken_stays_taken:
  "j < length cs \<Longrightarrow> cs ! j \<noteq> None \<Longrightarrow> (cs[i := Some x]) ! j \<noteq> None"
  by (cases "i = j") simp_all

text \<open>A channel created in a group with room keeps the invariant and registers the key.\<close>

lemma managerOk_create:
  assumes ok: "managerOk m" and fresh: "mChannelMap m (tgid, uid) = None"
    and g: "map_of (mChannelGroups m) gid = Some g"
    and room: "mLiveChannels g < int kMaxChannels"
  shows "\<exists>c g'. createChannel g tgid uid = Some (c, g')
           \<and> mLiveChannels g' = mLiveChannels g + 1 \<and> fst (mId c) = gid
           \<and> managerOk (m\<lparr>mChannelGroups := setGroup gid g' (mChannelGroups m),
                            mChannelMap := (mChannelMap m)((tgid, uid) \<mapsto> mId c)\<rparr>)"
proof -
  have gok: "groupOk (gid, g)" using ok g by (rule managerOk_group)
  from createChannel_ok[OF gok room, of tgid uid] obtain s where
    s: "s < kMaxChannels" and free: "mChannels g ! s = None" and
    cr: "createChannel g tgid uid =
               Some (\<lparr>mTgid = tgid, mUid = uid, mId = (gid, int s)\<rparr>,
                     g\<lparr>mLiveChannels := mLiveChannels g + 1,
                       mChannels := (mChannels g)[s := Some \<lparr>mTgid = tgid, mUid = uid, mId = (gid, int s)\<rparr>]\<rparr>)" and
    gok': "groupOk (gid, g\<lparr>mLiveChannels := mLiveChannels g + 1,
                       mChannels := (mChannels g)[s := Some \<lparr>mTgid = tgid, mUid = uid, mId = (gid, int s)\<rparr>]\<rparr>)"
    by blast
  define c where "c = \<lparr>mTgid = tgid, mUid = uid, mId = (gid, int s)\<rparr>"
  define g' where "g' = g\<lparr>mLiveChannels := mLiveChannels g + 1,
                            mChannels := (mChannels g)[s := Some c]\<rparr>"
  define m' where "m' = m\<lparr>mChannelGroups := setGroup gid g' (mChannelGroups m),
                            mChannelMap := (mChannelMap m)((tgid, uid) \<mapsto> mId c)\<rparr>"
  have cr': "createChannel g tgid uid = Some (c, g')" using cr by (simp add: c_def g'_def)
  have g'ok: "groupOk (gid, g')" using gok' by (simp add: c_def g'_def)
  have live': "mLiveChannels g' = mLiveChannels g + 1" by (simp add: g'_def)
  have chans': "mChannels g' = (mChannels g)[s := Some c]" by (simp add: g'_def)
  have idc: "mId c = (gid, int s)" by (simp add: c_def)
  have len: "length (mChannels g) = kMaxChannels" using gok by (simp add: groupOk_def)
  have gp: "mChannelGroups m' = setGroup gid g' (mChannelGroups m)" by (simp add: m'_def)
  have mp: "mChannelMap m' = (mChannelMap m)((tgid, uid) \<mapsto> (gid, int s))"
    by (simp add: m'_def idc)
  have dist: "distinct (map fst (mChannelGroups m))" using ok by (rule managerOk_distinct)
  have kin: "gid \<in> fst ` set (mChannelGroups m)"
    using g by (metis map_of_SomeD image_eqI fst_conv)
  have mo: "map_of (setGroup gid g' (mChannelGroups m)) = (map_of (mChannelGroups m))(gid \<mapsto> g')"
    using kin by (simp add: map_of_setGroup)
  have grp: "groupOk p" if "p \<in> set (setGroup gid g' (mChannelGroups m))" for p
  proof -
    have "p = (gid, g') \<or> p \<in> set (mChannelGroups m)"
      using set_setGroup[OF that] by blast
    then show ?thesis using g'ok ok by (auto simp: managerOk_def)
  qed
  have ent: "\<exists>h. map_of (setGroup gid g' (mChannelGroups m)) (fst w) = Some h \<and> 0 \<le> snd w
             \<and> snd w < int kMaxChannels \<and> mChannels h ! nat (snd w) \<noteq> None"
    if w: "((mChannelMap m)((tgid, uid) \<mapsto> (gid, int s))) key = Some w" for key w
  proof (cases "key = (tgid, uid)")
    case True
    then have weq: "w = (gid, int s)" using w by simp
    have "mChannels g' ! s \<noteq> None" using s len by (simp add: chans')
    then show ?thesis using weq s by (simp add: mo)
  next
    case False
    then have old: "mChannelMap m key = Some w" using w by simp
    from managerOk_entry[OF ok old] obtain h where
      h: "map_of (mChannelGroups m) (fst w) = Some h" and wlo: "0 \<le> snd w"
      and whi: "snd w < int kMaxChannels" and wocc: "mChannels h ! nat (snd w) \<noteq> None"
      by blast
    show ?thesis
    proof (cases "fst w = gid")
      case True
      then have hg: "h = g" using h g by simp
      have "nat (snd w) < length (mChannels g)" using wlo whi len by simp
      then have "mChannels g' ! nat (snd w) \<noteq> None"
        unfolding chans' using wocc hg by (intro taken_stays_taken) simp_all
      then show ?thesis using True wlo whi by (simp add: mo)
    next
      case False
      then have "map_of (setGroup gid g' (mChannelGroups m)) (fst w) = Some h"
        using h by (simp add: mo)
      then show ?thesis using wlo whi wocc by blast
    qed
  qed
  have notnew: "w \<noteq> (gid, int s)" if "mChannelMap m key = Some w" for key w
  proof
    assume weq: "w = (gid, int s)"
    from managerOk_entry[OF ok that] obtain h where
      "map_of (mChannelGroups m) (fst w) = Some h" "mChannels h ! nat (snd w) \<noteq> None"
      by blast
    then show False using weq g free by simp
  qed
  have inj: "a = b"
    if a: "((mChannelMap m)((tgid, uid) \<mapsto> (gid, int s))) a = Some w"
    and b: "((mChannelMap m)((tgid, uid) \<mapsto> (gid, int s))) b = Some w" for a b w
  proof (cases "a = (tgid, uid)")
    case True
    then have weq: "w = (gid, int s)" using a by simp
    show ?thesis
    proof (cases "b = (tgid, uid)")
      case True
      then show ?thesis using \<open>a = (tgid, uid)\<close> by simp
    next
      case False
      then have "mChannelMap m b = Some w" using b by simp
      then show ?thesis using notnew weq by blast
    qed
  next
    case False
    then have oa: "mChannelMap m a = Some w" using a by simp
    show ?thesis
    proof (cases "b = (tgid, uid)")
      case True
      then have "w = (gid, int s)" using b by simp
      then show ?thesis using notnew oa by blast
    next
      case False
      then have "mChannelMap m b = Some w" using b by simp
      then show ?thesis using managerOk_inj[OF ok oa] by blast
    qed
  qed
  have fin: "finite (dom (mChannelMap m))"
    and cnt: "getChannelCount m = int (card (dom (mChannelMap m)))"
    using managerOk_count[OF ok] by simp_all
  have knew: "(tgid, uid) \<notin> dom (mChannelMap m)" using fresh by auto
  have card': "int (card (dom ((mChannelMap m)((tgid, uid) \<mapsto> (gid, int s)))))
                = int (card (dom (mChannelMap m))) + 1"
    using fin knew by simp
  have sum': "getChannelCount m' = getChannelCount m + 1"
    using sum_setGroup[OF dist g, of g'] live' by (simp add: getChannelCount_def gp)
  have mok: "managerOk m'"
  proof (rule managerOkI)
    show "sorted_wrt (<) (map fst (mChannelGroups m'))"
      unfolding gp using managerOk_sorted[OF ok] by (rule sorted_setGroup)
    show "\<And>p. p \<in> set (mChannelGroups m') \<Longrightarrow> groupOk p" unfolding gp by (rule grp)
    show "\<And>key w. mChannelMap m' key = Some w \<Longrightarrow>
        \<exists>h. map_of (mChannelGroups m') (fst w) = Some h \<and> 0 \<le> snd w
             \<and> snd w < int kMaxChannels \<and> mChannels h ! nat (snd w) \<noteq> None"
      unfolding gp mp by (rule ent)
    show "\<And>a b w. mChannelMap m' a = Some w \<Longrightarrow> mChannelMap m' b = Some w \<Longrightarrow> a = b"
      unfolding mp by (rule inj)
    show "finite (dom (mChannelMap m'))" unfolding mp using fin by simp
    show "getChannelCount m' = int (card (dom (mChannelMap m')))"
      unfolding mp using sum' cnt card' by simp
  qed
  have fid: "fst (mId c) = gid" by (simp add: idc)
  from cr' live' fid mok show ?thesis unfolding m'_def by blast
qed

lemma getOrCreateChannel_present:
  assumes ok: "managerOk m" and v: "mChannelMap m (tgid, uid) = Some v"
  shows "\<exists>c. getOrCreateChannel m tgid uid = Some (c, m)
           \<and> map_of (mChannelGroups m) (fst (mId c)) \<noteq> None"
proof -
  from managerOk_entry[OF ok v] obtain g where
    g: "map_of (mChannelGroups m) (fst v) = Some g" and lo: "0 \<le> snd v"
    and hi: "snd v < int kMaxChannels" and occ: "mChannels g ! nat (snd v) \<noteq> None"
    by blast
  have gok: "groupOk (fst v, g)" using ok g by (rule managerOk_group)
  from getChannel_ok[OF gok lo hi occ] obtain c where
    c: "getChannel g (snd v) = Some c" and i: "fst (mId c) = fst v" by blast
  have "getOrCreateChannel m tgid uid = Some (c, m)"
    by (simp add: getOrCreateChannel_def v g c)
  then show ?thesis using i g by simp
qed

text \<open>
  The group a new channel goes to: the first group with room or a new group, with the
  manager as it is once that group exists.
\<close>

lemma getOrCreateChannel_absent:
  assumes ok: "managerOk m" and fresh: "mChannelMap m (tgid, uid) = None"
  shows "\<exists>c g gid groups g'.
           getOrCreateChannel m tgid uid =
             Some (c, m\<lparr>mChannelGroups := setGroup gid g' groups,
                         mChannelMap := (mChannelMap m)((tgid, uid) \<mapsto> mId c)\<rparr>)
           \<and> managerOk (m\<lparr>mChannelGroups := setGroup gid g' groups,
                         mChannelMap := (mChannelMap m)((tgid, uid) \<mapsto> mId c)\<rparr>)
           \<and> fst (mId c) = gid \<and> map_of groups gid = Some g
           \<and> mLiveChannels g < int kMaxChannels
           \<and> mLiveChannels g' = mLiveChannels g + 1
           \<and> (case find (\<lambda>p. mLiveChannels (snd p) < int kMaxChannels) (mChannelGroups m) of
                 Some p \<Rightarrow> groups = mChannelGroups m \<and> p = (gid, g)
               | None \<Rightarrow> groups = mChannelGroups m @ [(gid, g)] \<and> mLiveChannels g = 0)"
proof (cases "find (\<lambda>p. mLiveChannels (snd p) < int kMaxChannels) (mChannelGroups m)")
  case None
  define gid where
    "gid = (if mChannelGroups m = [] then 0 else fst (last (mChannelGroups m)) + 1)"
  define groups where "groups = emplaceGroup gid (mChannelGroups m)"
  define m1 where "m1 = m\<lparr>mChannelGroups := groups\<rparr>"
  have found: "groupWithRoom (mChannelGroups m) = - 1" using None by (rule groupWithRoom_none)
  have ok1: "managerOk m1"
    and g: "map_of groups gid = Some (ChannelGroup_new gid)"
    and app: "groups = mChannelGroups m @ [(gid, ChannelGroup_new gid)]"
    using managerOk_emplace[OF ok gid_def] by (simp_all add: m1_def groups_def)
  have room: "mLiveChannels (ChannelGroup_new gid) < int kMaxChannels"
    by (simp add: ChannelGroup_new_def kMaxChannels_def)
  have fresh1: "mChannelMap m1 (tgid, uid) = None" using fresh by (simp add: m1_def)
  have g1: "map_of (mChannelGroups m1) gid = Some (ChannelGroup_new gid)"
    using g by (simp add: m1_def)
  from managerOk_create[OF ok1 fresh1 g1 room] obtain c g' where
    cr: "createChannel (ChannelGroup_new gid) tgid uid = Some (c, g')"
    and live': "mLiveChannels g' = mLiveChannels (ChannelGroup_new gid) + 1"
    and fid: "fst (mId c) = gid"
    and ok': "managerOk (m1\<lparr>mChannelGroups := setGroup gid g' (mChannelGroups m1),
                            mChannelMap := (mChannelMap m1)((tgid, uid) \<mapsto> mId c)\<rparr>)"
    by blast
  have same: "m1\<lparr>mChannelGroups := setGroup gid g' (mChannelGroups m1),
                 mChannelMap := (mChannelMap m1)((tgid, uid) \<mapsto> mId c)\<rparr>
              = m\<lparr>mChannelGroups := setGroup gid g' groups,
                   mChannelMap := (mChannelMap m)((tgid, uid) \<mapsto> mId c)\<rparr>"
    by (simp add: m1_def)
  have res: "getOrCreateChannel m tgid uid =
               Some (c, m\<lparr>mChannelGroups := setGroup gid g' groups,
                           mChannelMap := (mChannelMap m)((tgid, uid) \<mapsto> mId c)\<rparr>)"
    unfolding getOrCreateChannel_def Let_def
    by (simp add: fresh found gid_def[symmetric] groups_def[symmetric] g cr)
  have l0: "mLiveChannels (ChannelGroup_new gid) = 0" by (simp add: ChannelGroup_new_def)
  show ?thesis
    apply (rule exI[of _ c], rule exI[of _ "ChannelGroup_new gid"], rule exI[of _ gid],
           rule exI[of _ groups], rule exI[of _ g'])
    using res ok' fid g room live' app l0 unfolding same None by simp
next
  case (Some p)
  have nonneg: "\<And>q. q \<in> set (mChannelGroups m) \<Longrightarrow> 0 \<le> fst q"
    using ok by (simp add: managerOk_def groupOk_def)
  have found: "groupWithRoom (mChannelGroups m) = fst p"
    and nf: "groupWithRoom (mChannelGroups m) \<noteq> - 1"
    and pin: "p \<in> set (mChannelGroups m)"
    and room: "mLiveChannels (snd p) < int kMaxChannels"
    using groupWithRoom_found[OF Some nonneg] by blast+
  have g: "map_of (mChannelGroups m) (fst p) = Some (snd p)"
    using managerOk_distinct[OF ok] pin by simp
  from managerOk_create[OF ok fresh g room] obtain c g' where
    cr: "createChannel (snd p) tgid uid = Some (c, g')"
    and live': "mLiveChannels g' = mLiveChannels (snd p) + 1"
    and fid: "fst (mId c) = fst p"
    and ok': "managerOk (m\<lparr>mChannelGroups := setGroup (fst p) g' (mChannelGroups m),
                            mChannelMap := (mChannelMap m)((tgid, uid) \<mapsto> mId c)\<rparr>)"
    by blast
  have fp: "fst p \<noteq> - 1" using nf found by simp
  have res: "getOrCreateChannel m tgid uid =
               Some (c, m\<lparr>mChannelGroups := setGroup (fst p) g' (mChannelGroups m),
                           mChannelMap := (mChannelMap m)((tgid, uid) \<mapsto> mId c)\<rparr>)"
    unfolding getOrCreateChannel_def Let_def
    by (simp add: fresh found fp g cr)
  show ?thesis
    apply (rule exI[of _ c], rule exI[of _ "snd p"], rule exI[of _ "fst p"],
           rule exI[of _ "mChannelGroups m"], rule exI[of _ g'])
    using res ok' fid g room live' unfolding Some by simp
qed

lemma getOrCreateChannel_ok:
  assumes ok: "managerOk m"
  shows "\<exists>c m'. getOrCreateChannel m tgid uid = Some (c, m') \<and> managerOk m'
           \<and> dom (mChannelMap m') = insert (tgid, uid) (dom (mChannelMap m))
           \<and> map_of (mChannelGroups m') (fst (mId c)) \<noteq> None"
proof (cases "mChannelMap m (tgid, uid)")
  case (Some v)
  then have "insert (tgid, uid) (dom (mChannelMap m)) = dom (mChannelMap m)" by auto
  then show ?thesis using getOrCreateChannel_present[OF ok Some] ok by auto
next
  case None
  from getOrCreateChannel_absent[OF ok None] obtain c g gid groups g' where
    res: "getOrCreateChannel m tgid uid =
             Some (c, m\<lparr>mChannelGroups := setGroup gid g' groups,
                         mChannelMap := (mChannelMap m)((tgid, uid) \<mapsto> mId c)\<rparr>)"
    and ok': "managerOk (m\<lparr>mChannelGroups := setGroup gid g' groups,
                         mChannelMap := (mChannelMap m)((tgid, uid) \<mapsto> mId c)\<rparr>)"
    and fid: "fst (mId c) = gid" and g: "map_of groups gid = Some g"
    by blast
  have kin: "gid \<in> fst ` set groups" using g by (metis map_of_SomeD image_eqI fst_conv)
  have "map_of (setGroup gid g' groups) gid = Some g'" using kin by (simp add: map_of_setGroup)
  then show ?thesis using res ok' fid by simp
qed

lemma call_ok:
  assumes ok: "managerOk m"
  shows "\<exists>m'. call isValid m c = Some m' \<and> managerOk m'
           \<and> dom (mChannelMap m') = registered (dom (mChannelMap m)) [c]"
proof (cases c)
  case (GetConfig tgid uid)
  from getOrCreateChannel_ok[OF ok, of tgid uid] obtain ch m' where
    r: "getOrCreateChannel m tgid uid = Some (ch, m')" and ok': "managerOk m'"
    and d: "dom (mChannelMap m') = insert (tgid, uid) (dom (mChannelMap m))"
    and at: "map_of (mChannelGroups m') (fst (mId ch)) \<noteq> None"
    by blast
  from at obtain g where "map_of (mChannelGroups m') (fst (mId ch)) = Some g" by auto
  then have "map_option snd (getChannelConfig isValid m tgid uid) = Some m'"
    by (cases "isValid ch") (simp_all add: getChannelConfig_def r)
  then have cl: "call isValid m c = Some m'" by (simp only: GetConfig call.simps)
  have rg: "registered (dom (mChannelMap m)) [c] = insert (tgid, uid) (dom (mChannelMap m))"
    by (simp add: GetConfig)
  from cl ok' d rg show ?thesis by (intro exI[of _ m']) simp
next
  case (Close tgid uid)
  show ?thesis
  proof (cases "mChannelMap m (tgid, uid)")
    case None
    then have same: "dom (mChannelMap m) - {(tgid, uid)} = dom (mChannelMap m)" by auto
    have cl: "call isValid m c = Some m" by (simp add: Close closeChannel_absent[OF None])
    have rg: "registered (dom (mChannelMap m)) [c] = dom (mChannelMap m)"
      using same by (simp add: Close)
    from cl ok rg show ?thesis by (intro exI[of _ m]) simp
  next
    case (Some v)
    from closeChannel_present[OF ok Some] obtain m' where
      r: "closeChannel m tgid uid = Some (True, m')" and ok': "managerOk m'"
      and mp: "mChannelMap m' = (mChannelMap m)((tgid, uid) := None)" by blast
    have d: "dom (mChannelMap m') = dom (mChannelMap m) - {(tgid, uid)}" unfolding mp by auto
    have cl: "call isValid m c = Some m'" by (simp add: Close r)
    have rg: "registered (dom (mChannelMap m)) [c] = dom (mChannelMap m) - {(tgid, uid)}"
      by (simp add: Close)
    from cl ok' d rg show ?thesis by (intro exI[of _ m']) simp
  qed
qed

lemma registered_append: "registered S (cs @ ds) = registered (registered S cs) ds"
  by (induction S cs rule: registered.induct) simp_all

lemma calls_ok:
  "managerOk m \<Longrightarrow>
     \<exists>m'. calls isValid m cs = Some m' \<and> managerOk m'
        \<and> dom (mChannelMap m') = registered (dom (mChannelMap m)) cs"
proof (induction cs arbitrary: m)
  case Nil
  then show ?case by simp
next
  case (Cons c cs)
  from call_ok[OF Cons.prems, of isValid c] obtain m1 where
    c1: "call isValid m c = Some m1" and ok1: "managerOk m1"
    and d1: "dom (mChannelMap m1) = registered (dom (mChannelMap m)) [c]" by blast
  from Cons.IH[OF ok1] obtain m' where
    r: "calls isValid m1 cs = Some m'" and ok': "managerOk m'"
    and d': "dom (mChannelMap m') = registered (dom (mChannelMap m1)) cs" by blast
  have rg: "registered (dom (mChannelMap m)) (c # cs) = registered (registered (dom (mChannelMap m)) [c]) cs"
    using registered_append[of "dom (mChannelMap m)" "[c]" cs] by simp
  have cl: "calls isValid m (c # cs) = Some m'" by (simp add: c1 r)
  from cl ok' d' d1 rg show ?case by (intro exI[of _ m']) simp
qed

subsection \<open>Groups fill up in order when channels are only added\<close>

lemma fst_last_setGroup: "gs \<noteq> [] \<Longrightarrow> fst (last (setGroup k g gs)) = fst (last gs)"
proof -
  assume ne: "gs \<noteq> []"
  then have ne': "setGroup k g gs \<noteq> []" by (simp add: setGroup_def)
  have "fst (last (setGroup k g gs)) = last (map fst (setGroup k g gs))"
    using ne' by (rule fst_last)
  also have "\<dots> = last (map fst gs)" by (simp only: keys_setGroup)
  also have "\<dots> = fst (last gs)" using ne by (simp add: last_map)
  finally show ?thesis .
qed

lemma live_le_max: "groupOk p \<Longrightarrow> mLiveChannels (snd p) \<le> int kMaxChannels"
  using occupied_le[of "snd p"] by (simp add: groupOk_def)

lemma filledInOrder_get:
  assumes ok: "managerOk m" and fill: "filledInOrder m"
    and r: "getOrCreateChannel m tgid uid = Some (c, m')"
  shows "filledInOrder m'"
proof (cases "mChannelMap m (tgid, uid)")
  case (Some v)
  from getOrCreateChannel_present[OF ok Some] r have "m' = m" by auto
  then show ?thesis using fill by simp
next
  case None
  from getOrCreateChannel_absent[OF ok None] r obtain g gid groups g' where
    m': "m' = m\<lparr>mChannelGroups := setGroup gid g' groups,
                  mChannelMap := (mChannelMap m)((tgid, uid) \<mapsto> mId c)\<rparr>"
    and g: "map_of groups gid = Some g"
    and room: "mLiveChannels g < int kMaxChannels"
    and live': "mLiveChannels g' = mLiveChannels g + 1"
    and fnd: "(case find (\<lambda>p. mLiveChannels (snd p) < int kMaxChannels) (mChannelGroups m) of
                 Some p \<Rightarrow> groups = mChannelGroups m \<and> p = (gid, g)
               | None \<Rightarrow> groups = mChannelGroups m @ [(gid, g)] \<and> mLiveChannels g = 0)"
    by auto
  have gp: "mChannelGroups m' = setGroup gid g' groups" by (simp add: m')
  have ne: "groups \<noteq> []" using g by auto
  have old: "1 \<le> mLiveChannels (snd q)
             \<and> (mLiveChannels (snd q) = int kMaxChannels \<or> fst q = fst (last groups))"
    if q: "q \<in> set groups" "fst q \<noteq> gid" for q
  proof (cases "find (\<lambda>p. mLiveChannels (snd p) < int kMaxChannels) (mChannelGroups m)")
    case (Some p)
    then have "groups = mChannelGroups m" using fnd by simp
    then show ?thesis using fill q(1) by (simp add: filledInOrder_def)
  next
    case None
    then have app: "groups = mChannelGroups m @ [(gid, g)]" using fnd by simp
    then have qin: "q \<in> set (mChannelGroups m)" using q by auto
    have "\<not> mLiveChannels (snd q) < int kMaxChannels"
      using groupWithRoom_none(2)[OF None qin] .
    moreover have "mLiveChannels (snd q) \<le> int kMaxChannels"
      using ok qin by (intro live_le_max) (simp add: managerOk_def)
    ultimately have "mLiveChannels (snd q) = int kMaxChannels" by simp
    then show ?thesis by (simp add: kMaxChannels_def)
  qed
  have lastkey: "fst (last groups) = gid"
  proof (cases "find (\<lambda>p. mLiveChannels (snd p) < int kMaxChannels) (mChannelGroups m)")
    case (Some p)
    then have e: "groups = mChannelGroups m" "p = (gid, g)" using fnd by simp_all
    have "p \<in> set (mChannelGroups m)" using Some by (auto simp: find_Some_iff)
    then have "mLiveChannels g = int kMaxChannels \<or> gid = fst (last (mChannelGroups m))"
      using fill e by (auto simp: filledInOrder_def)
    then show ?thesis using room e by simp
  next
    case None
    then show ?thesis using fnd by simp
  qed
  have lk: "fst (last (setGroup gid g' groups)) = gid"
    using fst_last_setGroup[OF ne] lastkey by simp
  have g0: "0 \<le> mLiveChannels g"
  proof -
    have "(gid, g) \<in> set groups" using g by (rule map_of_SomeD)
    show ?thesis
    proof (cases "find (\<lambda>p. mLiveChannels (snd p) < int kMaxChannels) (mChannelGroups m)")
      case (Some p)
      then have e: "groups = mChannelGroups m" using fnd by simp
      have "groupOk (gid, g)" using ok g unfolding e by (rule managerOk_group)
      then show ?thesis by (simp add: groupOk_def)
    next
      case None
      then show ?thesis using fnd by simp
    qed
  qed
  show ?thesis
    unfolding filledInOrder_def gp lk
  proof
    fix q assume "q \<in> set (setGroup gid g' groups)"
    then have "q = (gid, g') \<or> (q \<in> set groups \<and> fst q \<noteq> gid)" by (rule set_setGroup)
    then show "1 \<le> mLiveChannels (snd q)
                \<and> (mLiveChannels (snd q) = int kMaxChannels \<or> fst q = gid)"
    proof
      assume "q = (gid, g')"
      then show ?thesis using live' g0 by simp
    next
      assume a: "q \<in> set groups \<and> fst q \<noteq> gid"
      then show ?thesis using old[of q] lastkey by simp
    qed
  qed
qed

lemma sum_list_const: "(\<And>p. p \<in> set gs \<Longrightarrow> f p = (c :: int)) \<Longrightarrow> sum_list (map f gs) = c * int (length gs)"
  by (induction gs) (simp_all add: algebra_simps)

lemma groupCount_filled:
  assumes ok: "managerOk m" and fill: "filledInOrder m"
  shows "getGroupCount m = (getChannelCount m + 15) div 16"
proof (cases "mChannelGroups m = []")
  case True
  then show ?thesis by (simp add: getGroupCount_def getChannelCount_def)
next
  case False
  let ?gs = "mChannelGroups m"
  have split: "?gs = butlast ?gs @ [last ?gs]" using False by simp
  have dist: "distinct (map fst (butlast ?gs @ [last ?gs]))"
    using managerOk_distinct[OF ok] split by simp
  have notin: "fst (last ?gs) \<notin> fst ` set (butlast ?gs)" using dist by simp
  have full: "mLiveChannels (snd p) = 16" if "p \<in> set (butlast ?gs)" for p
  proof -
    have a: "fst p \<in> fst ` set (butlast ?gs)" using that by (rule imageI)
    have ne: "fst p \<noteq> fst (last ?gs)"
    proof
      assume "fst p = fst (last ?gs)"
      with a have "fst (last ?gs) \<in> fst ` set (butlast ?gs)" by (simp only:)
      with notin show False by (rule notE)
    qed
    have pin: "p \<in> set ?gs" using that by (rule in_set_butlastD)
    have "1 \<le> mLiveChannels (snd p)
          \<and> (mLiveChannels (snd p) = int kMaxChannels \<or> fst p = fst (last ?gs))"
      using fill[unfolded filledInOrder_def] pin by (rule bspec)
    then have "mLiveChannels (snd p) = int kMaxChannels" using ne by blast
    then show ?thesis by (simp add: kMaxChannels_def)
  qed
  have lin: "last ?gs \<in> set ?gs" using False by simp
  have lo: "1 \<le> mLiveChannels (snd (last ?gs))" using fill lin by (simp add: filledInOrder_def)
  have hi: "mLiveChannels (snd (last ?gs)) \<le> 16"
    using live_le_max[of "last ?gs"] ok lin by (simp add: managerOk_def kMaxChannels_def)
  define k where "k = int (length (butlast ?gs))"
  define l where "l = mLiveChannels (snd (last ?gs))"
  have "sum_list (map (\<lambda>p. mLiveChannels (snd p)) ?gs)
          = sum_list (map (\<lambda>p. mLiveChannels (snd p)) (butlast ?gs))
            + mLiveChannels (snd (last ?gs))"
    by (subst split) simp
  also have "sum_list (map (\<lambda>p. mLiveChannels (snd p)) (butlast ?gs))
               = 16 * int (length (butlast ?gs))"
    using full by (rule sum_list_const)
  finally have s: "getChannelCount m = 16 * k + l"
    by (simp only: getChannelCount_def k_def l_def)
  have "length ?gs = length (butlast ?gs @ [last ?gs])" using split by (rule arg_cong)
  then have "int (length ?gs) = int (length (butlast ?gs)) + 1"
    by simp
  then have n: "getGroupCount m = k + 1" by (simp only: getGroupCount_def k_def)
  have l1: "1 \<le> l" "l \<le> 16" using lo hi by (simp_all only: l_def)
  have "(16 * k + l + 15) div 16 = k + 1" using l1 by simp
  then show ?thesis by (simp only: s n)
qed

lemma filledInOrder_calls:
  "managerOk m \<Longrightarrow> filledInOrder m \<Longrightarrow> \<forall>c \<in> set cs. isGetConfig c \<Longrightarrow>
     calls isValid m cs = Some m' \<Longrightarrow> filledInOrder m'"
proof (induction cs arbitrary: m)
  case Nil
  then show ?case by simp
next
  case (Cons c cs)
  from Cons.prems(3) obtain tgid uid where c: "c = GetConfig tgid uid"
    by (cases c) auto
  from Cons.prems(4) obtain m1 where
    c1: "call isValid m c = Some m1" and r: "calls isValid m1 cs = Some m'"
    by (auto split: option.splits)
  from c1 obtain ch where g: "getOrCreateChannel m tgid uid = Some (ch, m1)"
    unfolding c by (auto simp: getChannelConfig_def split: option.splits if_splits)
  have f1: "filledInOrder m1" using Cons.prems(1,2) g by (rule filledInOrder_get)
  from call_ok[OF Cons.prems(1), of isValid c] c1 have ok1: "managerOk m1" by auto
  show ?case using Cons.IH[OF ok1 f1 _ r] Cons.prems(3) by simp
qed

lemma filledInOrder_new: "filledInOrder ChannelManager_new"
  by (simp add: filledInOrder_def ChannelManager_new_def)

text \<open>
  C2. Every sequence of \<^verbatim>\<open>getChannelConfig\<close> and \<^verbatim>\<open>closeChannel\<close> calls on a new manager
  runs without an abort, and after it \<^verbatim>\<open>getChannelCount()\<close> is the number of distinct
  identities registered and not closed since. When the sequence consists of
  \<^verbatim>\<open>getChannelConfig\<close> calls only, \<^verbatim>\<open>getGroupCount()\<close> is that number divided by 16 and
  rounded up: up to 16 distinct identities are in one group, and from the 17th on there
  is more than one group.
\<close>

theorem channel_and_group_counts:
  "(\<exists>m. calls isValid ChannelManager_new cs = Some m
        \<and> getChannelCount m = int (card (registered {} cs)))
   \<and> ((\<forall>c \<in> set cs. isGetConfig c) \<and> calls isValid ChannelManager_new cs = Some m'
        \<longrightarrow> getGroupCount m' = (int (card (registered {} cs)) + 15) div 16
            \<and> (card (registered {} cs) \<le> 16 \<longrightarrow> getGroupCount m' \<le> 1)
            \<and> (17 \<le> card (registered {} cs) \<longrightarrow> 1 < getGroupCount m'))"
proof (intro conjI impI)
  from calls_ok[OF managerOk_new, of isValid cs] obtain m where
    r: "calls isValid ChannelManager_new cs = Some m" and ok: "managerOk m"
    and d: "dom (mChannelMap m) = registered (dom (mChannelMap ChannelManager_new)) cs"
    by blast
  have e: "dom (mChannelMap ChannelManager_new) = {}" by (simp add: ChannelManager_new_def)
  have "getChannelCount m = int (card (registered {} cs))"
    using managerOk_count[OF ok] d e by simp
  then show "\<exists>m. calls isValid ChannelManager_new cs = Some m
        \<and> getChannelCount m = int (card (registered {} cs))"
    using r by blast
next
  assume a: "(\<forall>c \<in> set cs. isGetConfig c) \<and> calls isValid ChannelManager_new cs = Some m'"
  from calls_ok[OF managerOk_new, of isValid cs] a have ok: "managerOk m'"
    and d: "dom (mChannelMap m') = registered (dom (mChannelMap ChannelManager_new)) cs"
    by auto
  have e: "dom (mChannelMap ChannelManager_new) = {}" by (simp add: ChannelManager_new_def)
  have cnt: "getChannelCount m' = int (card (registered {} cs))"
    using managerOk_count[OF ok] d e by simp
  have gets: "\<forall>c \<in> set cs. isGetConfig c"
    and r: "calls isValid ChannelManager_new cs = Some m'" using a by blast+
  have "filledInOrder m'"
    using managerOk_new filledInOrder_new gets r by (rule filledInOrder_calls)
  from groupCount_filled[OF ok this] cnt
  show g: "getGroupCount m' = (int (card (registered {} cs)) + 15) div 16" by simp
  show "getGroupCount m' \<le> 1" if "card (registered {} cs) \<le> 16"
    unfolding g using that by simp
  show "1 < getGroupCount m'" if "17 \<le> card (registered {} cs)"
    unfolding g using that by simp
qed

lemma registered_spawn:
  "registered S (map (\<lambda>i. GetConfig (3000 + int i) (4000 + int i)) ns)
     = S \<union> (\<lambda>i. (3000 + int i, 4000 + int i)) ` set ns"
  by (induction ns arbitrary: S) auto

lemma card_spawn: "card (registered {} (spawnChannels n)) = n"
proof -
  have "inj (\<lambda>i. (3000 + int i, 4000 + int i))" by (simp add: inj_on_def)
  then have "card ((\<lambda>i. (3000 + int i, 4000 + int i)) ` {0 ..< n}) = card {0 ..< n}"
    by (intro card_image) (rule inj_on_subset, auto)
  then show ?thesis by (simp add: spawnChannels_def registered_spawn)
qed

text \<open>
  The test spawns channels with distinct identities: 16 of them are in one group, 17 in
  two, and closing one of 17 leaves 16 channels.
\<close>

theorem channel_and_group_counts_witness:
  "(\<exists>m. calls (\<lambda>c. True) ChannelManager_new (spawnChannels 16) = Some m
        \<and> getChannelCount m = 16 \<and> getGroupCount m = 1)
   \<and> (\<exists>m. calls (\<lambda>c. True) ChannelManager_new (spawnChannels 17) = Some m
        \<and> getChannelCount m = 17 \<and> getGroupCount m = 2)
   \<and> (\<exists>m. calls (\<lambda>c. True) ChannelManager_new (spawnChannels 17 @ [Close 3005 4005]) = Some m
        \<and> getChannelCount m = 16)"
proof -
  have gets: "\<forall>c \<in> set (spawnChannels n). isGetConfig c" for n
    by (simp add: spawnChannels_def)
  have a: "\<exists>m. calls (\<lambda>c. True) ChannelManager_new (spawnChannels n) = Some m
        \<and> getChannelCount m = int n \<and> getGroupCount m = (int n + 15) div 16" for n
  proof -
    from channel_and_group_counts[of "\<lambda>c. True" "spawnChannels n"] obtain m where
      r: "calls (\<lambda>c. True) ChannelManager_new (spawnChannels n) = Some m"
      and c: "getChannelCount m = int (card (registered {} (spawnChannels n)))" by blast
    from channel_and_group_counts[of "\<lambda>c. True" "spawnChannels n" m] gets r
    have "getGroupCount m = (int (card (registered {} (spawnChannels n))) + 15) div 16"
      by blast
    then show ?thesis using r c by (simp add: card_spawn)
  qed
  have reg: "registered {} (spawnChannels 17 @ [Close 3005 4005])
               = (\<lambda>i. (3000 + int i, 4000 + int i)) ` ({0 ..< 17} - {5})"
    by (auto simp: registered_append spawnChannels_def registered_spawn)
  have "inj_on (\<lambda>i. (3000 + int i, 4000 + int i)) ({0 ..< 17} - {5})" by (simp add: inj_on_def)
  then have "card ((\<lambda>i. (3000 + int i, 4000 + int i)) ` ({0 ..< 17} - {5})) = card ({0 ..< 17} - {5 :: nat})"
    by (rule card_image)
  then have c16: "card (registered {} (spawnChannels 17 @ [Close 3005 4005])) = 16"
    unfolding reg by simp
  from channel_and_group_counts[of "\<lambda>c. True" "spawnChannels 17 @ [Close 3005 4005]"]
  have b: "\<exists>m. calls (\<lambda>c. True) ChannelManager_new (spawnChannels 17 @ [Close 3005 4005]) = Some m
        \<and> getChannelCount m = 16"
    unfolding c16 by simp
  show ?thesis using a[of 16] a[of 17] b by simp
qed

end
